theory Spec2Isabelle
  imports Main "HOL-Library.Word"
begin

unbundle bit_operations_syntax

section \<open>Machine types, faults and the heap\<close>

text \<open>
  The header \<^verbatim>\<open>lib/src/parser.h\<close> is modelled with C's fixed-width integers as words:
  \<^verbatim>\<open>int32_t\<close> and \<^verbatim>\<open>uint32_t\<close> are \<open>32 word\<close> (signed comparisons are \<open>\<le>s\<close> and
  \<open><s\<close>, \<^verbatim>\<open>>>\<close> on an \<^verbatim>\<open>int32_t\<close> is \<open>signed_drop_bit\<close>), \<^verbatim>\<open>uint16_t\<close> is \<open>16 word\<close>
  and one \<^verbatim>\<open>char\<close> of storage is \<open>8 word\<close>. Whether plain \<^verbatim>\<open>char\<close> is signed is left to
  the C implementation; the functions that convert a stored \<^verbatim>\<open>char\<close> to \<^verbatim>\<open>int\<close> take the
  choice as their first argument (\<open>True\<close>: \<^verbatim>\<open>char\<close> is signed, as on x86 and x86-64).
\<close>

type_synonym byte = "8 word"
type_synonym int32 = "32 word"
type_synonym uint32 = "32 word"
type_synonym addr = nat

text \<open>
  Behaviour that C leaves undefined is a fault of the model: a read or write outside an
  object, a dereference of a pointer that addresses no live heap block, a read of the
  union member that was not the last one written, and a failed \<^verbatim>\<open>assert\<close>.
\<close>

datatype fault = OutOfBounds | InvalidPointer | InactiveMember | AssertionFailed

definition bindE :: "fault + 'a \<Rightarrow> ('a \<Rightarrow> fault + 'b) \<Rightarrow> fault + 'b" where
  "bindE m f = (case m of Inl e \<Rightarrow> Inl e | Inr x \<Rightarrow> f x)"

text \<open>
  The heap maps the address of each live block to its bytes. \<^verbatim>\<open>malloc\<close> hands out the
  addresses \<open>1, 2, 3, \<dots>\<close> (\<open>0\<close> is \<^verbatim>\<open>NULL\<close>) and never fails, and \<^verbatim>\<open>realloc\<close> always moves the
  block. The three counters record how many blocks \<^verbatim>\<open>malloc\<close> has allocated, how many
  \<^verbatim>\<open>realloc\<close> has moved and how many \<^verbatim>\<open>free\<close> has released.
\<close>

record heap =
  blocks :: "addr \<rightharpoonup> byte list"
  brk :: addr
  mallocs :: nat
  reallocs :: nat
  frees :: nat

definition heap_empty :: heap where
  "heap_empty = \<lparr>blocks = Map.empty, brk = 0, mallocs = 0, reallocs = 0, frees = 0\<rparr>"

definition malloc :: "heap \<Rightarrow> nat \<Rightarrow> addr \<times> heap" where
  "malloc h n =
     (let p = Suc (brk h)
      in (p, h\<lparr>blocks := (blocks h)(p \<mapsto> replicate n 0), brk := p,
               mallocs := Suc (mallocs h)\<rparr>))"

definition realloc :: "heap \<Rightarrow> addr \<Rightarrow> nat \<Rightarrow> fault + addr \<times> heap" where
  "realloc h a n =
     (case blocks h a of
        None \<Rightarrow> Inl InvalidPointer
      | Some blk \<Rightarrow>
          (let p = Suc (brk h)
           in Inr (p, h\<lparr>blocks := ((blocks h)(a := None))
                                     (p \<mapsto> take n blk @ replicate (n - length blk) 0),
                        brk := p, reallocs := Suc (reallocs h)\<rparr>)))"

definition free :: "heap \<Rightarrow> addr \<Rightarrow> fault + heap" where
  "free h a =
     (if a = 0 then Inr h
      else case blocks h a of
             None \<Rightarrow> Inl InvalidPointer
           | Some blk \<Rightarrow> Inr (h\<lparr>blocks := (blocks h)(a := None), frees := Suc (frees h)\<rparr>))"

section \<open>The compact string \<^verbatim>\<open>TSString\<close>\<close>

text \<open>
  \<^verbatim>\<open>
  #define SMALL_LEN 12
  typedef struct {
    union {
      struct { char *data; uint32_t capacity; } large;
      char small[SMALL_LEN];
    } content;
    uint32_t length;
  } TSString;
  \<close>
  The union is a datatype with one constructor per member. The C code never stores a tag:
  it chooses the member by \<^verbatim>\<open>self->length > SMALL_LEN\<close>, and so do the functions below;
  reading the member that is not there is the fault \<open>InactiveMember\<close>. The all-zero
  struct that \<^verbatim>\<open>memset\<close> leaves has length 0 and is read through \<^verbatim>\<open>small\<close>.
\<close>

definition SMALL_LEN :: uint32 where
  "SMALL_LEN = 12"

datatype content_union = Small "byte list" | Large addr uint32

record TSString =
  content :: content_union
  length_ts :: uint32

datatype ptr = InlinePtr | HeapPtr addr | IndeterminatePtr

definition ts_string_new :: TSString where
  "ts_string_new = \<lparr>content = Small (replicate (unat SMALL_LEN) 0), length_ts = 0\<rparr>"

definition large_data :: "TSString \<Rightarrow> ptr" where
  "large_data self = (case content self of Large a cap \<Rightarrow> HeapPtr a | Small bs \<Rightarrow> IndeterminatePtr)"

definition large_capacity :: "TSString \<Rightarrow> fault + uint32" where
  "large_capacity self = (case content self of Large a cap \<Rightarrow> Inr cap | Small bs \<Rightarrow> Inl InactiveMember)"

text \<open>\<^verbatim>\<open>data[i]\<close> as an rvalue, for a pointer \<open>data\<close> obtained from the string \<open>self\<close>.\<close>

definition load :: "heap \<Rightarrow> TSString \<Rightarrow> ptr \<Rightarrow> nat \<Rightarrow> fault + byte" where
  "load h self data i =
     (case data of
        InlinePtr \<Rightarrow>
          (case content self of
             Small bs \<Rightarrow> if i < length bs then Inr (bs ! i) else Inl OutOfBounds
           | Large a cap \<Rightarrow> Inl InactiveMember)
      | HeapPtr a \<Rightarrow>
          (case blocks h a of
             None \<Rightarrow> Inl InvalidPointer
           | Some blk \<Rightarrow> if i < length blk then Inr (blk ! i) else Inl OutOfBounds)
      | IndeterminatePtr \<Rightarrow> Inl InvalidPointer)"

text \<open>\<^verbatim>\<open>data[i] = b\<close>.\<close>

definition store :: "heap \<Rightarrow> TSString \<Rightarrow> ptr \<Rightarrow> nat \<Rightarrow> byte \<Rightarrow> fault + heap \<times> TSString" where
  "store h self data i b =
     (case data of
        InlinePtr \<Rightarrow>
          (case content self of
             Small bs \<Rightarrow>
               if i < length bs then Inr (h, self\<lparr>content := Small (bs[i := b])\<rparr>)
               else Inl OutOfBounds
           | Large a cap \<Rightarrow> Inl InactiveMember)
      | HeapPtr a \<Rightarrow>
          (case blocks h a of
             None \<Rightarrow> Inl InvalidPointer
           | Some blk \<Rightarrow>
               if i < length blk then Inr (h\<lparr>blocks := (blocks h)(a \<mapsto> blk[i := b])\<rparr>, self)
               else Inl OutOfBounds)
      | IndeterminatePtr \<Rightarrow> Inl InvalidPointer)"

text \<open>The \<open>n\<close> bytes at \<open>data\<close>, as \<^verbatim>\<open>memcpy\<close> and \<^verbatim>\<open>memcmp\<close> read them.\<close>

definition load_bytes :: "heap \<Rightarrow> TSString \<Rightarrow> ptr \<Rightarrow> nat \<Rightarrow> fault + byte list" where
  "load_bytes h self data n =
     (case data of
        InlinePtr \<Rightarrow>
          (case content self of
             Small bs \<Rightarrow> if n \<le> length bs then Inr (take n bs) else Inl OutOfBounds
           | Large a cap \<Rightarrow> Inl InactiveMember)
      | HeapPtr a \<Rightarrow>
          (case blocks h a of
             None \<Rightarrow> Inl InvalidPointer
           | Some blk \<Rightarrow> if n \<le> length blk then Inr (take n blk) else Inl OutOfBounds)
      | IndeterminatePtr \<Rightarrow> Inl InvalidPointer)"

text \<open>
  \<^verbatim>\<open>
  static inline void ts_string_delete(TSString *self) {
    if (self->length > SMALL_LEN) free(self->content.large.data);
    memset(self, 0, sizeof(*self));
  }
  \<close>
\<close>

definition ts_string_delete :: "heap \<Rightarrow> TSString \<Rightarrow> fault + heap \<times> TSString" where
  "ts_string_delete h self =
     bindE (if SMALL_LEN < length_ts self
            then (case large_data self of
                    HeapPtr a \<Rightarrow> free h a
                  | InlinePtr \<Rightarrow> Inl InvalidPointer
                  | IndeterminatePtr \<Rightarrow> Inl InvalidPointer)
            else Inr h)
       (\<lambda>h'. Inr (h', ts_string_new))"

text \<open>
  \<^verbatim>\<open>
  static inline char *ts_string_data(TSString *self) {
    if (self->length > SMALL_LEN) return self->content.large.data;
    else return self->content.small;
  }
  \<close>
\<close>

definition ts_string_data :: "TSString \<Rightarrow> ptr" where
  "ts_string_data self = (if SMALL_LEN < length_ts self then large_data self else InlinePtr)"

text \<open>
  \<^verbatim>\<open>
  static inline bool ts_string_eq(const TSString *self, const TSString *other) {
    if (self->length != other->length) return false;
    if (self->length > SMALL_LEN) {
      return memcmp(self->content.large.data, other->content.large.data, self->length) == 0;
    } else {
      return memcmp(self->content.small, other->content.small, self->length) == 0;
    }
  }
  \<close>
\<close>

definition ts_string_eq :: "heap \<Rightarrow> TSString \<Rightarrow> TSString \<Rightarrow> fault + bool" where
  "ts_string_eq h self other =
     (if length_ts self \<noteq> length_ts other then Inr False
      else if SMALL_LEN < length_ts self then
        bindE (load_bytes h self (large_data self) (unat (length_ts self))) (\<lambda>xs.
        bindE (load_bytes h other (large_data other) (unat (length_ts self))) (\<lambda>ys.
        Inr (xs = ys)))
      else
        bindE (load_bytes h self InlinePtr (unat (length_ts self))) (\<lambda>xs.
        bindE (load_bytes h other InlinePtr (unat (length_ts self))) (\<lambda>ys.
        Inr (xs = ys))))"

text \<open>
  \<^verbatim>\<open>data[self->length++] = b\<close>: the byte goes to index \<^verbatim>\<open>self->length\<close>, then the length
  is incremented (modulo \<open>2^32\<close>).
\<close>

definition put :: "ptr \<Rightarrow> byte \<Rightarrow> heap \<times> TSString \<Rightarrow> fault + heap \<times> TSString" where
  "put data b st =
     (case st of (h, self) \<Rightarrow>
        bindE (store h self data (unat (length_ts self)) b) (\<lambda>(h', self').
        Inr (h', self'\<lparr>length_ts := length_ts self' + 1\<rparr>)))"

text \<open>
  The first part of \<^verbatim>\<open>ts_string_push\<close>:
  \<^verbatim>\<open>
  unsigned utf8_len = 0;
  if (c <= 0x7f) utf8_len = 1;
  else if (c <= 0x7ff) utf8_len = 2;
  else if (c <= 0xffff) utf8_len = 3;
  else utf8_len = 4;
  \<close>
\<close>

definition utf8_len :: "int32 \<Rightarrow> uint32" where
  "utf8_len c =
     (if c \<le>s 0x7f then 1 else if c \<le>s 0x7ff then 2 else if c \<le>s 0xffff then 3 else 4)"

text \<open>
  The middle part, run when \<^verbatim>\<open>self->length + utf8_len > old_capacity\<close>:
  \<^verbatim>\<open>
  uint32_t capacity = old_capacity * 2;
  if (old_capacity > SMALL_LEN) {
    data = realloc(data, capacity);
    assert(data != NULL);
  } else {
    data = malloc(capacity);
    assert(data != NULL);
    memcpy(data, old_data, self->length);
  }
  self->content.large.data = data;
  self->content.large.capacity = capacity;
  \<close>
\<close>

definition grow :: "heap \<Rightarrow> TSString \<Rightarrow> uint32 \<Rightarrow> ptr \<Rightarrow> fault + ptr \<times> heap \<times> TSString" where
  "grow h self old_capacity old_data =
     (let capacity = old_capacity * 2
      in bindE
           (if SMALL_LEN < old_capacity then
              (case old_data of
                 HeapPtr a \<Rightarrow>
                   bindE (realloc h a (unat capacity)) (\<lambda>(p, h1).
                   if p = 0 then Inl AssertionFailed else Inr (p, h1))
               | InlinePtr \<Rightarrow> Inl InvalidPointer
               | IndeterminatePtr \<Rightarrow> Inl InvalidPointer)
            else
              (case malloc h (unat capacity) of (p, h1) \<Rightarrow>
                 if p = 0 then Inl AssertionFailed
                 else
                   bindE (load_bytes h self old_data (unat (length_ts self))) (\<lambda>old.
                   if length old \<le> unat capacity
                   then Inr (p, h1\<lparr>blocks := (blocks h1)
                                 (p \<mapsto> old @ replicate (unat capacity - length old) 0)\<rparr>)
                   else Inl OutOfBounds)))
           (\<lambda>(p, h').
              Inr (HeapPtr p, h', self\<lparr>content := Large p capacity\<rparr>)))"

text \<open>
  \<^verbatim>\<open>
  static inline void ts_string_push(TSString *self, int32_t c) {
    ...
    uint32_t old_capacity = self->length > SMALL_LEN ? self->content.large.capacity : SMALL_LEN;
    char *old_data = ts_string_data(self);
    char *data = old_data;
    if (self->length + utf8_len > old_capacity) { ... }
    if (c <= 0x7f) {
      data[self->length++] = (char)c;
    } else {
      if (c <= 0x7ff) {
        data[self->length++] = (char)((c >> 6) | 0xc0);
      } else {
        if (c <= 0xffff) {
          data[self->length++] = (char)((c >> 12) | 0xe0);
        } else {
          data[self->length++] = (char)((c >> 18) | 0xf0);
          data[self->length++] = (char)(((c >> 12) & 0x3f) | 0x80);
        }
        data[self->length++] = (char)(((c >> 6) & 0x3f) | 0x80);
      }
      data[self->length++] = (char)((c & 0x3f) | 0x80);
    }
  }
  \<close>
\<close>

definition ts_string_push :: "heap \<Rightarrow> TSString \<Rightarrow> int32 \<Rightarrow> fault + heap \<times> TSString" where
  "ts_string_push h self c =
     bindE (if SMALL_LEN < length_ts self then large_capacity self else Inr SMALL_LEN)
       (\<lambda>old_capacity.
     let old_data = ts_string_data self in
     bindE (if old_capacity < length_ts self + utf8_len c
            then grow h self old_capacity old_data
            else Inr (old_data, h, self))
       (\<lambda>(data, st).
     if c \<le>s 0x7f then
       put data (ucast c) st
     else
       bindE
         (if c \<le>s 0x7ff then
            put data (ucast (signed_drop_bit 6 c OR 0xc0)) st
          else
            bindE
              (if c \<le>s 0xffff then
                 put data (ucast (signed_drop_bit 12 c OR 0xe0)) st
               else
                 bindE (put data (ucast (signed_drop_bit 18 c OR 0xf0)) st)
                   (put data (ucast ((signed_drop_bit 12 c AND 0x3f) OR 0x80))))
              (put data (ucast ((signed_drop_bit 6 c AND 0x3f) OR 0x80))))
         (put data (ucast ((c AND 0x3f) OR 0x80)))))"

text \<open>
  A stored \<^verbatim>\<open>char\<close> converted to \<^verbatim>\<open>int\<close>: sign-extended where \<^verbatim>\<open>char\<close> is signed,
  zero-extended where it is unsigned.
\<close>

definition char_to_int :: "bool \<Rightarrow> byte \<Rightarrow> int32" where
  "char_to_int char_signed b = (if char_signed then scast b else ucast b)"

text \<open>
  \<^verbatim>\<open>
  static inline int32_t ts_string_char(TSString *self, uint32_t *i) {
    char *data = ts_string_data(self);
    uint32_t ix = *i;
    if (ix >= self->length) return -1;
    int32_t c = data[ix];
    ix += 1;
    if ((c & 0x80) != 0) {
      if (c < 0xe0) {
        c = ((c & 0x1f) << 6) | (data[ix] & 0x3f);
        ix += 1;
      } else if (c < 0xf0) {
        c = (uint16_t)((c << 12) | ((data[ix] & 0x3f) << 6) | (data[ix + 1] & 0x3f));
        ix += 2;
      } else {
        c = (((c & 7) << 18) | ((data[ix] & 0x3f) << 12) |
             ((data[ix + 1] & 0x3f) << 6) | (data[ix + 2] & 0x3f));
        ix += 3;
      }
    }
    *i = ix;
    return c;
  }
  \<close>
  The model returns the result together with the value of \<^verbatim>\<open>*i\<close> on return.
\<close>

definition ts_string_char :: "bool \<Rightarrow> heap \<Rightarrow> TSString \<Rightarrow> uint32 \<Rightarrow> fault + int32 \<times> uint32" where
  "ts_string_char char_signed h self i =
     (let data = ts_string_data self;
          rd = (\<lambda>k :: uint32. bindE (load h self data (unat k)) (\<lambda>b. Inr (char_to_int char_signed b)));
          ix = i
      in if length_ts self \<le> ix then Inr (- 1, i)
         else
           bindE (rd ix) (\<lambda>c.
           let ix = ix + 1
           in if c AND 0x80 \<noteq> 0 then
                if c <s 0xe0 then
                  bindE (rd ix) (\<lambda>d0.
                  Inr (push_bit 6 (c AND 0x1f) OR (d0 AND 0x3f), ix + 1))
                else if c <s 0xf0 then
                  bindE (rd ix) (\<lambda>d0.
                  bindE (rd (ix + 1)) (\<lambda>d1.
                  Inr (ucast (ucast (push_bit 12 c OR push_bit 6 (d0 AND 0x3f) OR (d1 AND 0x3f)) :: 16 word),
                       ix + 2)))
                else
                  bindE (rd ix) (\<lambda>d0.
                  bindE (rd (ix + 1)) (\<lambda>d1.
                  bindE (rd (ix + 2)) (\<lambda>d2.
                  Inr (push_bit 18 (c AND 7) OR push_bit 12 (d0 AND 0x3f)
                         OR push_bit 6 (d1 AND 0x3f) OR (d2 AND 0x3f),
                       ix + 3))))
              else Inr (c, ix)))"

section \<open>Sequences of pushes and the stored bytes\<close>

text \<open>A run of \<^verbatim>\<open>ts_string_push\<close> calls, one per codepoint, stopping at the first fault.\<close>

fun push_all :: "heap \<Rightarrow> TSString \<Rightarrow> int32 list \<Rightarrow> fault + heap \<times> TSString" where
  "push_all h self [] = Inr (h, self)"
| "push_all h self (c # cs) = bindE (ts_string_push h self c) (\<lambda>(h', self'). push_all h' self' cs)"

text \<open>The bytes of the string: the \<^verbatim>\<open>self->length\<close> bytes at \<^verbatim>\<open>ts_string_data(self)\<close>.\<close>

definition stored_bytes :: "heap \<Rightarrow> TSString \<Rightarrow> fault + byte list" where
  "stored_bytes h self = load_bytes h self (ts_string_data self) (unat (length_ts self))"

text \<open>
  The whole object a \<^verbatim>\<open>char *\<close> of the string points into (the inline array or a heap
  block), and a run of \<^verbatim>\<open>data[self->length++] = b\<close> statements; both are used to state
  what \<^verbatim>\<open>ts_string_push\<close> does to memory.
\<close>

definition buffer_at :: "heap \<Rightarrow> TSString \<Rightarrow> ptr \<Rightarrow> byte list option" where
  "buffer_at h self data =
     (case data of
        InlinePtr \<Rightarrow> (case content self of Small bs \<Rightarrow> Some bs | Large a cap \<Rightarrow> None)
      | HeapPtr a \<Rightarrow> blocks h a
      | IndeterminatePtr \<Rightarrow> None)"

fun put_all :: "ptr \<Rightarrow> byte list \<Rightarrow> heap \<times> TSString \<Rightarrow> fault + heap \<times> TSString" where
  "put_all data [] st = Inr st"
| "put_all data (b # bs) st = bindE (put data b st) (put_all data bs)"

text \<open>The allocator was not called between two heaps (their blocks may differ).\<close>

definition same_counters :: "heap \<Rightarrow> heap \<Rightarrow> bool" where
  "same_counters h' h =
     (brk h' = brk h \<and> mallocs h' = mallocs h \<and> reallocs h' = reallocs h \<and> frees h' = frees h)"

text \<open>
  The capacity that \<^verbatim>\<open>ts_string_push\<close> computes as \<^verbatim>\<open>old_capacity\<close>, and the
  representation invariant of the struct: at most \<^verbatim>\<open>SMALL_LEN\<close> bytes in the inline
  array, or more than \<^verbatim>\<open>SMALL_LEN\<close> bytes in a live heap block of \<^verbatim>\<open>capacity\<close> bytes
  (whose address is not \<^verbatim>\<open>NULL\<close>).
\<close>

definition capacity_of :: "TSString \<Rightarrow> uint32" where
  "capacity_of self = (case content self of Small bs \<Rightarrow> SMALL_LEN | Large a cap \<Rightarrow> cap)"

definition ts_string_valid :: "heap \<Rightarrow> TSString \<Rightarrow> bool" where
  "ts_string_valid h self =
     (case content self of
        Small bs \<Rightarrow> length_ts self \<le> SMALL_LEN \<and> length bs = unat SMALL_LEN
      | Large a cap \<Rightarrow>
          SMALL_LEN < length_ts self \<and> length_ts self \<le> cap \<and> a \<noteq> 0 \<and>
          (case blocks h a of None \<Rightarrow> False | Some blk \<Rightarrow> length blk = unat cap))"

text \<open>
  The capacities a string built by pushes alone can have: \<^verbatim>\<open>SMALL_LEN\<close> doubled \<open>k\<close>
  times, as long as the doubling \<^verbatim>\<open>old_capacity * 2\<close> has not wrapped around \<open>2^32\<close>.
\<close>

definition doubled_capacity :: "TSString \<Rightarrow> bool" where
  "doubled_capacity self = (\<exists>k. k \<le> 28 \<and> unat (capacity_of self) = 12 * 2 ^ k)"

text \<open>
  The UTF-8 encoding as the specification words it: one byte up to \<open>0x7F\<close>, two up to
  \<open>0x7FF\<close>, three up to \<open>0xFFFF\<close>, four otherwise, the lead byte first and the
  continuation bytes in descending significance.
\<close>

definition utf8_bytes :: "int32 \<Rightarrow> byte list" where
  "utf8_bytes c =
     (if c \<le>s 0x7f then [ucast c]
      else if c \<le>s 0x7ff then
        [ucast (0xc0 OR signed_drop_bit 6 c), ucast (0x80 OR (c AND 0x3f))]
      else if c \<le>s 0xffff then
        [ucast (0xe0 OR signed_drop_bit 12 c), ucast (0x80 OR (signed_drop_bit 6 c AND 0x3f)),
         ucast (0x80 OR (c AND 0x3f))]
      else
        [ucast (0xf0 OR signed_drop_bit 18 c), ucast (0x80 OR (signed_drop_bit 12 c AND 0x3f)),
         ucast (0x80 OR (signed_drop_bit 6 c AND 0x3f)), ucast (0x80 OR (c AND 0x3f))])"

definition encoded_length :: "int32 \<Rightarrow> nat" where
  "encoded_length c =
     (if c \<le>s 0x7f then 1 else if c \<le>s 0x7ff then 2 else if c \<le>s 0xffff then 3 else 4)"

definition total_length :: "int32 list \<Rightarrow> nat" where
  "total_length cs = sum_list (map encoded_length cs)"

section \<open>The lexer macros\<close>

text \<open>
  \<^verbatim>\<open>
  struct TSLexer {
    int32_t lookahead;
    TSSymbol result_symbol;
    void (*advance)(TSLexer *, bool);
    void (*mark_end)(TSLexer *);
    ...
  };
  \<close>
  The struct holds the two data fields that the macros read and write. The cursor the
  function pointers work on belongs to the parse engine, whose code is not in this
  header; it is modelled as the input, the current position, and the start and end
  position of the token being scanned.
\<close>

type_synonym TSSymbol = "16 word"
type_synonym TSStateId = "16 word"

record TSLexer =
  lookahead :: int32
  result_symbol :: TSSymbol
  input :: "int32 list"
  position :: nat
  token_start :: nat
  token_end :: nat

text \<open>
  Modelled from the spec: the engine's \<^verbatim>\<open>advance\<close> callback, which is not in
  \<^verbatim>\<open>parser.h\<close>. It consumes the current lookahead (one input unit), exposes the next one
  (0 at the end of input), and moves the token start past a skipped unit.
\<close>

definition lexer_advance :: "TSLexer \<Rightarrow> bool \<Rightarrow> TSLexer" where
  "lexer_advance lexer skip =
     (let p = (if position lexer < length (input lexer) then Suc (position lexer)
               else position lexer)
      in lexer\<lparr>lookahead := (if p < length (input lexer) then input lexer ! p else 0),
                position := p,
                token_start := (if skip then p else token_start lexer)\<rparr>)"

text \<open>
  Modelled from the spec: the engine's \<^verbatim>\<open>mark_end\<close> callback, which is not in
  \<^verbatim>\<open>parser.h\<close>. It snapshots the current input position as the candidate token's end.
\<close>

definition lexer_mark_end :: "TSLexer \<Rightarrow> TSLexer" where
  "lexer_mark_end lexer = lexer\<lparr>token_end := position lexer\<rparr>"

text \<open>The local variables of a scanning routine, with its parameter \<^verbatim>\<open>state\<close>.\<close>

record lex_locals =
  result :: bool
  skip :: bool
  eof :: bool
  lookahead_var :: int32
  state :: TSStateId

text \<open>
  \<^verbatim>\<open>
  #define START_LEXER()           \
    bool result = false;          \
    bool skip = false;            \
    UNUSED                        \
    bool eof = false;             \
    int32_t lookahead;            \
    goto start;                   \
    next_state:                   \
    lexer->advance(lexer, skip);  \
    start:                        \
    skip = false;                 \
    lookahead = lexer->lookahead;
  \<close>
  \<open>start_label\<close> is the code from \<^verbatim>\<open>start:\<close> on, \<open>next_state\<close> the code from
  \<^verbatim>\<open>next_state:\<close> on.
\<close>

definition start_label :: "lex_locals \<times> TSLexer \<Rightarrow> lex_locals \<times> TSLexer" where
  "start_label st =
     (case st of (l, lexer) \<Rightarrow> (l\<lparr>skip := False, lookahead_var := lookahead lexer\<rparr>, lexer))"

definition next_state :: "lex_locals \<times> TSLexer \<Rightarrow> lex_locals \<times> TSLexer" where
  "next_state st = (case st of (l, lexer) \<Rightarrow> start_label (l, lexer_advance lexer (skip l)))"

definition START_LEXER :: "TSLexer \<Rightarrow> TSStateId \<Rightarrow> lex_locals \<times> TSLexer" where
  "START_LEXER lexer s =
     start_label (\<lparr>result = False, skip = False, eof = False, lookahead_var = 0, state = s\<rparr>,
                  lexer)"

text \<open>\<^verbatim>\<open>#define ADVANCE(state_value) { state = state_value; goto next_state; }\<close>\<close>

definition ADVANCE :: "TSStateId \<Rightarrow> lex_locals \<times> TSLexer \<Rightarrow> lex_locals \<times> TSLexer" where
  "ADVANCE state_value st = (case st of (l, lexer) \<Rightarrow> next_state (l\<lparr>state := state_value\<rparr>, lexer))"

text \<open>\<^verbatim>\<open>#define SKIP(state_value) { skip = true; state = state_value; goto next_state; }\<close>\<close>

definition SKIP :: "TSStateId \<Rightarrow> lex_locals \<times> TSLexer \<Rightarrow> lex_locals \<times> TSLexer" where
  "SKIP state_value st =
     (case st of (l, lexer) \<Rightarrow> next_state (l\<lparr>skip := True, state := state_value\<rparr>, lexer))"

text \<open>
  \<^verbatim>\<open>
  #define ACCEPT_TOKEN(symbol_value)     \
    result = true;                       \
    lexer->result_symbol = symbol_value; \
    lexer->mark_end(lexer);
  \<close>
\<close>

definition ACCEPT_TOKEN :: "TSSymbol \<Rightarrow> lex_locals \<times> TSLexer \<Rightarrow> lex_locals \<times> TSLexer" where
  "ACCEPT_TOKEN symbol_value st =
     (case st of (l, lexer) \<Rightarrow>
        (l\<lparr>result := True\<rparr>, lexer_mark_end (lexer\<lparr>result_symbol := symbol_value\<rparr>)))"

text \<open>\<^verbatim>\<open>#define END_STATE() return result;\<close>\<close>

definition END_STATE :: "lex_locals \<times> TSLexer \<Rightarrow> bool \<times> TSLexer" where
  "END_STATE st = (case st of (l, lexer) \<Rightarrow> (result l, lexer))"

text \<open>
  A scanning routine is C code between \<^verbatim>\<open>START_LEXER()\<close> and an \<^verbatim>\<open>END_STATE()\<close>
  that branches on \<^verbatim>\<open>state\<close> and \<^verbatim>\<open>lookahead\<close> and changes them and the lexer
  through the macros only. A run of it that returns is therefore the finite sequence of
  macro invocations it made, in order, ended by \<^verbatim>\<open>END_STATE()\<close>.
\<close>

datatype invocation = Advance TSStateId | Skip TSStateId | Accept TSSymbol

fun invoke :: "lex_locals \<times> TSLexer \<Rightarrow> invocation \<Rightarrow> lex_locals \<times> TSLexer" where
  "invoke st (Advance s) = ADVANCE s st"
| "invoke st (Skip s) = SKIP s st"
| "invoke st (Accept symbol_value) = ACCEPT_TOKEN symbol_value st"

definition run_until :: "TSLexer \<Rightarrow> TSStateId \<Rightarrow> invocation list \<Rightarrow> lex_locals \<times> TSLexer" where
  "run_until lexer s invs = foldl invoke (START_LEXER lexer s) invs"

definition run :: "TSLexer \<Rightarrow> TSStateId \<Rightarrow> invocation list \<Rightarrow> bool \<times> TSLexer" where
  "run lexer s invs = END_STATE (run_until lexer s invs)"

fun is_accept :: "invocation \<Rightarrow> bool" where
  "is_accept (Accept symbol_value) = True"
| "is_accept (Advance s) = False"
| "is_accept (Skip s) = False"

section \<open>Evaluation on concrete inputs\<close>

lemma replicate_numeral_unfold: "replicate (numeral k) x = x # replicate (pred_numeral k) x"
  by (simp add: numeral_eq_Suc)

lemmas string_defs =
  ts_string_push_def ts_string_new_def SMALL_LEN_def utf8_len_def ts_string_data_def put_def
  store_def bindE_def ts_string_char_def load_def char_to_int_def grow_def malloc_def
  load_bytes_def large_data_def large_capacity_def heap_empty_def Let_def
  word_le_nat_alt word_less_nat_alt replicate_numeral_unfold

lemmas lexer_defs =
  START_LEXER_def start_label_def next_state_def ADVANCE_def SKIP_def ACCEPT_TOKEN_def
  END_STATE_def lexer_advance_def lexer_mark_end_def

section \<open>Decoding at or past the end\<close>

text \<open>
  Claim C9. For every string and every byte offset \<open>i\<close> with \<open>i \<ge> length\<close>,
  \<^verbatim>\<open>ts_string_char\<close> returns the end-of-buffer sentinel \<open>-1\<close> and leaves the caller's
  index as it was. This holds for every value of the struct, valid or not, and for
  either signedness of \<^verbatim>\<open>char\<close>.
\<close>

theorem ts_string_char_end_of_buffer:
  "length_ts self \<le> i \<Longrightarrow> ts_string_char char_signed h self i = Inr (- 1, i)"
  by (simp add: ts_string_char_def)

theorem ts_string_char_end_of_buffer_witness:
  "length_ts \<lparr>content = Small [65, 66, 67, 0, 0, 0, 0, 0, 0, 0, 0, 0], length_ts = 3\<rparr> \<le> 3
   \<and> ts_string_char True heap_empty
         \<lparr>content = Small [65, 66, 67, 0, 0, 0, 0, 0, 0, 0, 0, 0], length_ts = 3\<rparr> 3
       = Inr (- 1, 3)"
  using ts_string_char_end_of_buffer
    [of "\<lparr>content = Small [65, 66, 67, 0, 0, 0, 0, 0, 0, 0, 0, 0], length_ts = 3\<rparr>" 3
        True heap_empty]
  by simp

section \<open>Deleting a string\<close>

text \<open>
  Claim C10. For every valid string, inline or heap-backed, \<^verbatim>\<open>ts_string_delete\<close> leaves
  the struct equal to the one \<^verbatim>\<open>ts_string_new\<close> returns (and \<^verbatim>\<open>ts_string_eq\<close> agrees);
  it releases one heap block exactly when the string was heap-backed. A second
  \<^verbatim>\<open>ts_string_delete\<close> returns the same heap, so it releases nothing, and the same
  empty struct.
\<close>

theorem ts_string_delete_resets:
  assumes "ts_string_valid h self"
  shows "\<exists>h'. ts_string_delete h self = Inr (h', ts_string_new)
           \<and> ts_string_eq h' ts_string_new ts_string_new = Inr True
           \<and> frees h' = (if SMALL_LEN < length_ts self then Suc (frees h) else frees h)
           \<and> ts_string_delete h' ts_string_new = Inr (h', ts_string_new)"
  using assms
  by (auto simp: ts_string_valid_def ts_string_delete_def large_data_def free_def bindE_def
        ts_string_new_def ts_string_eq_def load_bytes_def SMALL_LEN_def
        split: content_union.splits option.splits)

theorem ts_string_delete_resets_witness:
  "ts_string_valid (heap_empty\<lparr>blocks := [1 \<mapsto> replicate 24 65], brk := 1, mallocs := 1\<rparr>)
     \<lparr>content = Large 1 24, length_ts = 14\<rparr>
   \<and> (\<exists>h'. ts_string_delete (heap_empty\<lparr>blocks := [1 \<mapsto> replicate 24 65], brk := 1, mallocs := 1\<rparr>)
              \<lparr>content = Large 1 24, length_ts = 14\<rparr> = Inr (h', ts_string_new)
           \<and> ts_string_eq h' ts_string_new ts_string_new = Inr True
           \<and> frees h' = 1
           \<and> ts_string_delete h' ts_string_new = Inr (h', ts_string_new))"
  using ts_string_delete_resets
    [of "heap_empty\<lparr>blocks := [1 \<mapsto> replicate 24 65], brk := 1, mallocs := 1\<rparr>"
        "\<lparr>content = Large 1 24, length_ts = 14\<rparr>"]
  by (simp add: ts_string_valid_def SMALL_LEN_def heap_empty_def word_le_nat_alt word_less_nat_alt)

section \<open>Runs of a scanning routine\<close>

lemma run_eq:
  "run lexer s invs = (result (fst (run_until lexer s invs)), snd (run_until lexer s invs))"
  by (simp add: run_def END_STATE_def split: prod.splits)

lemma result_invoke: "result (fst (invoke st x)) = (result (fst st) \<or> is_accept x)"
  by (cases x; cases st) (simp_all add: lexer_defs Let_def)

lemma result_foldl_invoke:
  "result (fst (foldl invoke st xs)) = (result (fst st) \<or> (\<exists>x \<in> set xs. is_accept x))"
  by (induction xs arbitrary: st) (auto simp: result_invoke)

lemma invoke_no_accept:
  "\<not> is_accept x \<Longrightarrow>
     result_symbol (snd (invoke st x)) = result_symbol (snd st) \<and>
     token_end (snd (invoke st x)) = token_end (snd st) \<and>
     result (fst (invoke st x)) = result (fst st)"
  by (cases x; cases st) (simp_all add: lexer_defs Let_def)

lemma foldl_invoke_no_accept:
  "\<forall>x \<in> set xs. \<not> is_accept x \<Longrightarrow>
     result_symbol (snd (foldl invoke st xs)) = result_symbol (snd st) \<and>
     token_end (snd (foldl invoke st xs)) = token_end (snd st) \<and>
     result (fst (foldl invoke st xs)) = result (fst st)"
  by (induction xs arbitrary: st) (simp_all add: invoke_no_accept)

lemma accept_effect:
  "result (fst (ACCEPT_TOKEN v st)) \<and> result_symbol (snd (ACCEPT_TOKEN v st)) = v \<and>
   token_end (snd (ACCEPT_TOKEN v st)) = position (snd st) \<and>
   position (snd (ACCEPT_TOKEN v st)) = position (snd st)"
  by (cases st) (simp add: lexer_defs)

text \<open>
  Claim C6. A run that starts with \<^verbatim>\<open>START_LEXER\<close> and finishes with \<^verbatim>\<open>END_STATE\<close>
  returns true if and only if \<^verbatim>\<open>ACCEPT_TOKEN\<close> was invoked at least once during the run;
  a run without any accept returns false.
\<close>

theorem end_state_true_iff_accepted:
  "fst (run lexer s invs) = (\<exists>symbol_value. Accept symbol_value \<in> set invs)"
proof -
  have "(\<exists>x \<in> set invs. is_accept x) = (\<exists>symbol_value. Accept symbol_value \<in> set invs)"
    by (metis is_accept.elims(2) is_accept.simps(1))
  then show ?thesis
    by (simp add: run_eq run_until_def result_foldl_invoke START_LEXER_def start_label_def)
qed

theorem end_state_true_iff_accepted_witness:
  "\<not> fst (run \<lparr>lookahead = 97, result_symbol = 0, input = [97, 98], position = 0,
                  token_start = 0, token_end = 0\<rparr> 0 [Skip 0, Advance 1])
   \<and> fst (run \<lparr>lookahead = 97, result_symbol = 0, input = [97, 98], position = 0,
                 token_start = 0, token_end = 0\<rparr> 0 [Skip 0, Accept 5, Advance 1])"
  using end_state_true_iff_accepted
    [of "\<lparr>lookahead = 97, result_symbol = 0, input = [97, 98], position = 0,
          token_start = 0, token_end = 0\<rparr>" 0 "[Skip 0, Advance 1]"]
    end_state_true_iff_accepted
    [of "\<lparr>lookahead = 97, result_symbol = 0, input = [97, 98], position = 0,
          token_start = 0, token_end = 0\<rparr>" 0 "[Skip 0, Accept 5, Advance 1]"]
  by simp

text \<open>
  Claim C5. \<^verbatim>\<open>ACCEPT_TOKEN\<close> does not end the run. When a run invokes
  \<^verbatim>\<open>ACCEPT_TOKEN(A)\<close>, later \<^verbatim>\<open>ACCEPT_TOKEN(B)\<close>, and no further accept before
  \<^verbatim>\<open>END_STATE\<close>, then \<^verbatim>\<open>END_STATE\<close> returns true, the result symbol is \<open>B\<close>, and the
  marked token end is the position the cursor had at the second accept. The first accept
  had recorded \<open>A\<close> and the position at that time; the second overwrote both.
\<close>

theorem later_accept_overwrites:
  assumes "\<forall>x \<in> set zs. \<not> is_accept x"
  shows "fst (run lexer s (xs @ Accept A # ys @ Accept B # zs))
         \<and> result_symbol (snd (run lexer s (xs @ Accept A # ys @ Accept B # zs))) = B
         \<and> token_end (snd (run lexer s (xs @ Accept A # ys @ Accept B # zs)))
             = position (snd (run_until lexer s (xs @ Accept A # ys)))
         \<and> result_symbol (snd (run_until lexer s (xs @ [Accept A]))) = A
         \<and> token_end (snd (run_until lexer s (xs @ [Accept A])))
             = position (snd (run_until lexer s xs))"
proof -
  let ?st = "run_until lexer s (xs @ Accept A # ys)"
  have whole: "run_until lexer s (xs @ Accept A # ys @ Accept B # zs)
                 = foldl invoke (ACCEPT_TOKEN B ?st) zs"
    by (simp add: run_until_def)
  have fin: "result_symbol (snd (foldl invoke (ACCEPT_TOKEN B ?st) zs)) = B
             \<and> token_end (snd (foldl invoke (ACCEPT_TOKEN B ?st) zs)) = position (snd ?st)
             \<and> result (fst (foldl invoke (ACCEPT_TOKEN B ?st) zs))"
    using foldl_invoke_no_accept [OF assms, of "ACCEPT_TOKEN B ?st"] accept_effect [of B ?st]
    by simp
  have first: "run_until lexer s (xs @ [Accept A]) = ACCEPT_TOKEN A (run_until lexer s xs)"
    by (simp add: run_until_def)
  show ?thesis
    using fin accept_effect [of A "run_until lexer s xs"]
    by (simp add: run_eq whole first)
qed

theorem later_accept_overwrites_witness:
  "run \<lparr>lookahead = 97, result_symbol = 0, input = [97, 98, 99, 100], position = 0,
        token_start = 0, token_end = 0\<rparr> 0
     ([Advance 1] @ Accept 5 # [Advance 2] @ Accept 7 # [Advance 3])
       = (True, \<lparr>lookahead = 100, result_symbol = 7, input = [97, 98, 99, 100], position = 3,
                  token_start = 0, token_end = 2\<rparr>)
   \<and> position (snd (run_until \<lparr>lookahead = 97, result_symbol = 0, input = [97, 98, 99, 100],
                                  position = 0, token_start = 0, token_end = 0\<rparr> 0
                        ([Advance 1] @ Accept 5 # [Advance 2]))) = 2"
  using later_accept_overwrites
    [of "[Advance 3]"
        "\<lparr>lookahead = 97, result_symbol = 0, input = [97, 98, 99, 100], position = 0,
          token_start = 0, token_end = 0\<rparr>" 0 "[Advance 1]" 5 "[Advance 2]" 7]
  by (simp add: run_eq run_until_def lexer_defs)

section \<open>Decoding what was pushed, on concrete inputs\<close>

text \<open>
  Claim C1 (the code departs from it). The claim is that pushing any Unicode scalar
  value onto a fresh string and decoding at offset 0 gives the value back and advances
  the index by its encoded length. Where \<^verbatim>\<open>char\<close> is signed, \<^verbatim>\<open>int32_t c = data[ix]\<close> is
  negative for every lead byte, \<^verbatim>\<open>c < 0xe0\<close> is then always true, and a three- or
  four-byte sequence is decoded as a two-byte one: U+4E2D is stored as \<open>E4 B8 AD\<close> and
  decoded as U+0138 with the index advanced by 2. Where \<^verbatim>\<open>char\<close> is unsigned the same
  bytes decode to U+4E2D with the index advanced by 3. The last section shows that this
  is the general picture: with an unsigned \<^verbatim>\<open>char\<close> the round trip holds for every value
  from 0 to \<open>0x1FFFFF\<close> (\<open>round_trip_unsigned_char\<close>); with a signed \<^verbatim>\<open>char\<close> it holds up
  to \<open>0x7FF\<close> (\<open>round_trip_signed_char_short\<close>) and fails for every codepoint above
  (\<open>signed_char_takes_two_byte_branch\<close>).
\<close>

theorem three_byte_decode_signed_char:
  "ts_string_push heap_empty ts_string_new 0x4E2D
     = Inr (heap_empty, \<lparr>content = Small [0xE4, 0xB8, 0xAD, 0, 0, 0, 0, 0, 0, 0, 0, 0], length_ts = 3\<rparr>)
   \<and> ts_string_char True heap_empty
         \<lparr>content = Small [0xE4, 0xB8, 0xAD, 0, 0, 0, 0, 0, 0, 0, 0, 0], length_ts = 3\<rparr> 0
       = Inr (0x138, 2)
   \<and> ts_string_char False heap_empty
         \<lparr>content = Small [0xE4, 0xB8, 0xAD, 0, 0, 0, 0, 0, 0, 0, 0, 0], length_ts = 3\<rparr> 0
       = Inr (0x4E2D, 3)"
  by (simp add: string_defs)

text \<open>
  Claim C3 (the code departs from it). Pushing U+0041, U+00E9, U+4E2D, U+1F600 onto an
  empty string gives length 10, and decoding at offsets 0, 1 and 10 gives U+0041, U+00E9
  and the end-of-buffer sentinel, as claimed. Where \<^verbatim>\<open>char\<close> is signed, decoding at
  offsets 3 and 6 gives U+0138 and U+041F instead of U+4E2D and U+1F600, by the same
  defect as in C1.
\<close>

theorem example_signed_char:
  "push_all heap_empty ts_string_new [0x41, 0xE9, 0x4E2D, 0x1F600]
     = Inr (heap_empty,
            \<lparr>content = Small [0x41, 0xC3, 0xA9, 0xE4, 0xB8, 0xAD, 0xF0, 0x9F, 0x98, 0x80, 0, 0],
              length_ts = 10\<rparr>)
   \<and> map (ts_string_char True heap_empty
            \<lparr>content = Small [0x41, 0xC3, 0xA9, 0xE4, 0xB8, 0xAD, 0xF0, 0x9F, 0x98, 0x80, 0, 0],
              length_ts = 10\<rparr>) [0, 1, 3, 6, 10]
       = [Inr (0x41, 1), Inr (0xE9, 3), Inr (0x138, 5), Inr (0x41F, 8), Inr (- 1, 10)]"
  by (simp add: string_defs)

text \<open>With an unsigned \<^verbatim>\<open>char\<close> the example decodes as the specification says.\<close>

lemma example_unsigned_char:
  "map (ts_string_char False heap_empty
            \<lparr>content = Small [0x41, 0xC3, 0xA9, 0xE4, 0xB8, 0xAD, 0xF0, 0x9F, 0x98, 0x80, 0, 0],
              length_ts = 10\<rparr>) [0, 1, 3, 6, 10]
       = [Inr (0x41, 1), Inr (0xE9, 3), Inr (0x4E2D, 6), Inr (0x1F600, 10), Inr (- 1, 10)]"
  by (simp add: string_defs)

section \<open>Equality of strings\<close>

lemma stored_bytes_valid:
  "ts_string_valid h self \<Longrightarrow>
     \<exists>xs. stored_bytes h self = Inr xs \<and> length xs = unat (length_ts self)"
  by (auto simp: ts_string_valid_def stored_bytes_def load_bytes_def ts_string_data_def
        large_data_def word_le_nat_alt word_less_nat_alt
        split: content_union.splits option.splits)

text \<open>
  Claim C8. For valid strings \<^verbatim>\<open>ts_string_eq\<close> returns true if and only if the lengths
  match and the stored bytes match byte for byte. It is reflexive and symmetric, and the
  result is a function of the stored bytes alone (the storage kind does not enter: it is
  itself determined by the length).
\<close>

theorem ts_string_eq_bytes:
  assumes "ts_string_valid h self" and "ts_string_valid h other"
  shows "\<exists>xs ys. stored_bytes h self = Inr xs \<and> length xs = unat (length_ts self)
           \<and> stored_bytes h other = Inr ys \<and> length ys = unat (length_ts other)
           \<and> ts_string_eq h self other = Inr (length_ts self = length_ts other \<and> xs = ys)
           \<and> ts_string_eq h self other = Inr (xs = ys)
           \<and> ts_string_eq h self self = Inr True
           \<and> ts_string_eq h other self = ts_string_eq h self other"
proof -
  obtain xs where xs: "stored_bytes h self = Inr xs" "length xs = unat (length_ts self)"
    using stored_bytes_valid [OF assms(1)] by blast
  obtain ys where ys: "stored_bytes h other = Inr ys" "length ys = unat (length_ts other)"
    using stored_bytes_valid [OF assms(2)] by blast
  have neq: "length_ts self \<noteq> length_ts other \<Longrightarrow> xs \<noteq> ys"
    using xs(2) ys(2) by (auto simp: word_unat_eq_iff)
  have same: "length_ts self = length_ts other \<Longrightarrow>
      ts_string_eq h self other = Inr (xs = ys) \<and> ts_string_eq h other self = Inr (ys = xs)"
    using xs(1) ys(1)
    by (auto simp: ts_string_eq_def stored_bytes_def ts_string_data_def bindE_def
          split: if_splits)
  have refl: "ts_string_eq h self self = Inr True"
    using xs(1)
    by (auto simp: ts_string_eq_def stored_bytes_def ts_string_data_def bindE_def
          split: if_splits)
  have diff: "length_ts self \<noteq> length_ts other \<Longrightarrow>
      ts_string_eq h self other = Inr False \<and> ts_string_eq h other self = Inr False"
    by (simp add: ts_string_eq_def)
  show ?thesis
    using xs ys neq same refl diff
    by (cases "length_ts self = length_ts other") auto
qed

theorem ts_string_eq_bytes_witness:
  "ts_string_eq heap_empty
     \<lparr>content = Small [65, 66, 0, 0, 0, 0, 0, 0, 0, 0, 0, 0], length_ts = 2\<rparr>
     \<lparr>content = Small [65, 66, 67, 68, 0, 0, 0, 0, 0, 0, 0, 0], length_ts = 2\<rparr> = Inr True
   \<and> ts_string_eq heap_empty
     \<lparr>content = Small [65, 66, 67, 68, 0, 0, 0, 0, 0, 0, 0, 0], length_ts = 2\<rparr>
     \<lparr>content = Small [65, 66, 0, 0, 0, 0, 0, 0, 0, 0, 0, 0], length_ts = 2\<rparr> = Inr True"
  using ts_string_eq_bytes
    [of heap_empty "\<lparr>content = Small [65, 66, 0, 0, 0, 0, 0, 0, 0, 0, 0, 0], length_ts = 2\<rparr>"
        "\<lparr>content = Small [65, 66, 67, 68, 0, 0, 0, 0, 0, 0, 0, 0], length_ts = 2\<rparr>"]
  by (auto simp: ts_string_valid_def stored_bytes_def ts_string_data_def load_bytes_def
        SMALL_LEN_def word_le_nat_alt word_less_nat_alt)

section \<open>One call of \<^verbatim>\<open>ts_string_push\<close>\<close>

lemma utf8_len_unat: "unat (utf8_len c) = encoded_length c"
  by (simp add: utf8_len_def encoded_length_def)

lemma length_utf8_bytes: "length (utf8_bytes c) = encoded_length c"
  by (simp add: utf8_bytes_def encoded_length_def)

lemma encoded_length_bounds: "1 \<le> encoded_length c" "encoded_length c \<le> 4"
  by (simp_all add: encoded_length_def)

lemma load_bytes_buffer:
  "buffer_at h self data = Some buf \<Longrightarrow>
     load_bytes h self data n = (if n \<le> length buf then Inr (take n buf) else Inl OutOfBounds)"
  by (simp add: load_bytes_def buffer_at_def split: ptr.splits content_union.splits option.splits)

lemma put_buffer:
  assumes "buffer_at h self data = Some buf" and "unat (length_ts self) < length buf"
  shows "\<exists>h' self'. put data b (h, self) = Inr (h', self')
           \<and> buffer_at h' self' data = Some (buf[unat (length_ts self) := b])
           \<and> length_ts self' = length_ts self + 1
           \<and> same_counters h' h
           \<and> blocks h' = (case data of HeapPtr a \<Rightarrow> (blocks h)(a \<mapsto> buf[unat (length_ts self) := b])
                            | InlinePtr \<Rightarrow> blocks h | IndeterminatePtr \<Rightarrow> blocks h)
           \<and> (data \<noteq> InlinePtr \<longrightarrow> content self' = content self)"
  using assms
  by (auto simp: put_def store_def buffer_at_def bindE_def same_counters_def
        split: ptr.splits content_union.splits option.splits)

lemma put_all_buffer:
  assumes "buffer_at h self data = Some buf"
    and "unat (length_ts self) + length bs \<le> length buf"
    and "length buf < 2 ^ 32"
  shows "\<exists>h' self'. put_all data bs (h, self) = Inr (h', self')
           \<and> buffer_at h' self' data
               = Some (take (unat (length_ts self)) buf @ bs
                        @ drop (unat (length_ts self) + length bs) buf)
           \<and> unat (length_ts self') = unat (length_ts self) + length bs
           \<and> same_counters h' h
           \<and> blocks h' = (case data of
                  HeapPtr a \<Rightarrow> (blocks h)(a \<mapsto> take (unat (length_ts self)) buf @ bs
                        @ drop (unat (length_ts self) + length bs) buf)
                | InlinePtr \<Rightarrow> blocks h | IndeterminatePtr \<Rightarrow> blocks h)
           \<and> (data \<noteq> InlinePtr \<longrightarrow> content self' = content self)"
  using assms
proof (induction bs arbitrary: h self buf)
  case Nil
  then show ?case
    by (auto simp: buffer_at_def map_upd_triv same_counters_def split: ptr.splits)
next
  case (Cons b bs)
  let ?n = "unat (length_ts self)"
  from Cons.prems have lt: "?n < length buf" by simp
  obtain h1 s1 where st: "put data b (h, self) = Inr (h1, s1)"
      and buf1: "buffer_at h1 s1 data = Some (buf[?n := b])"
      and len1: "length_ts s1 = length_ts self + 1"
      and cnt1: "same_counters h1 h"
      and blk1: "blocks h1 = (case data of HeapPtr a \<Rightarrow> (blocks h)(a \<mapsto> buf[?n := b])
                            | InlinePtr \<Rightarrow> blocks h | IndeterminatePtr \<Rightarrow> blocks h)"
      and con1: "data \<noteq> InlinePtr \<longrightarrow> content s1 = content self"
    using put_buffer [OF Cons.prems(1) lt, of b] by blast
  have n1: "unat (length_ts s1) = Suc ?n"
    using len1 lt Cons.prems(3) by (simp add: unat_word_ariths)
  have room: "unat (length_ts s1) + length bs \<le> length (buf[?n := b])"
    using Cons.prems(2) n1 by simp
  have small: "length (buf[?n := b]) < 2 ^ 32"
    using Cons.prems(3) by simp
  let ?new = "take (Suc ?n) (buf[?n := b]) @ bs @ drop (Suc ?n + length bs) (buf[?n := b])"
  obtain h2 s2 where st2: "put_all data bs (h1, s1) = Inr (h2, s2)"
      and buf2: "buffer_at h2 s2 data = Some ?new"
      and len2: "unat (length_ts s2) = Suc ?n + length bs"
      and cnt2: "same_counters h2 h1"
      and blk2: "blocks h2 = (case data of HeapPtr a \<Rightarrow> (blocks h1)(a \<mapsto> ?new)
                            | InlinePtr \<Rightarrow> blocks h1 | IndeterminatePtr \<Rightarrow> blocks h1)"
      and con2: "data \<noteq> InlinePtr \<longrightarrow> content s2 = content s1"
    using Cons.IH [OF buf1 room small, unfolded n1] by blast
  have bytes: "?new = take ?n buf @ (b # bs) @ drop (?n + length (b # bs)) buf"
    using lt by (simp add: take_Suc_conv_app_nth)
  have blk: "blocks h2 = (case data of
                  HeapPtr a \<Rightarrow> (blocks h)(a \<mapsto> take ?n buf @ (b # bs) @ drop (?n + length (b # bs)) buf)
                | InlinePtr \<Rightarrow> blocks h | IndeterminatePtr \<Rightarrow> blocks h)"
    using blk1 blk2 unfolding bytes by (simp split: ptr.splits)
  have len: "unat (length_ts s2) = ?n + length (b # bs)"
    using len2 by simp
  have "put_all data (b # bs) (h, self) = Inr (h2, s2)"
    using st st2 by (simp add: bindE_def)
  moreover have "same_counters h2 h"
    using cnt1 cnt2 by (simp add: same_counters_def)
  moreover have "data \<noteq> InlinePtr \<longrightarrow> content s2 = content self"
    using con1 con2 by simp
  ultimately show ?case
    using buf2 [unfolded bytes] len blk by blast
qed

lemma encode_part:
  "(if c \<le>s 0x7f then
       put data (ucast c) st
     else
       bindE
         (if c \<le>s 0x7ff then
            put data (ucast (signed_drop_bit 6 c OR 0xc0)) st
          else
            bindE
              (if c \<le>s 0xffff then
                 put data (ucast (signed_drop_bit 12 c OR 0xe0)) st
               else
                 bindE (put data (ucast (signed_drop_bit 18 c OR 0xf0)) st)
                   (put data (ucast ((signed_drop_bit 12 c AND 0x3f) OR 0x80))))
              (put data (ucast ((signed_drop_bit 6 c AND 0x3f) OR 0x80))))
         (put data (ucast ((c AND 0x3f) OR 0x80))))
   = put_all data (utf8_bytes c) st"
  by (simp add: utf8_bytes_def bindE_def or.commute split: sum.splits)

lemma ts_string_push_alt:
  "ts_string_push h self c =
     bindE (if SMALL_LEN < length_ts self then large_capacity self else Inr SMALL_LEN)
       (\<lambda>old_capacity.
     bindE (if old_capacity < length_ts self + utf8_len c
            then grow h self old_capacity (ts_string_data self)
            else Inr (ts_string_data self, h, self))
       (\<lambda>(data, st). put_all data (utf8_bytes c) st))"
  unfolding ts_string_push_def Let_def encode_part ..

lemma valid_buffer:
  assumes "ts_string_valid h self"
  shows "\<exists>buf. buffer_at h self (ts_string_data self) = Some buf
           \<and> length buf = unat (capacity_of self)
           \<and> unat (length_ts self) \<le> length buf
           \<and> stored_bytes h self = Inr (take (unat (length_ts self)) buf)
           \<and> (if SMALL_LEN < length_ts self then large_capacity self else Inr SMALL_LEN)
                = Inr (capacity_of self)
           \<and> 12 \<le> unat (capacity_of self)"
  using assms
  by (auto simp: ts_string_valid_def buffer_at_def ts_string_data_def large_data_def
        capacity_of_def stored_bytes_def load_bytes_def large_capacity_def SMALL_LEN_def
        word_le_nat_alt word_less_nat_alt
        split: content_union.splits option.splits)

lemma heap_eqI:
  "same_counters h' h \<Longrightarrow> blocks h' = blocks h \<Longrightarrow> h' = (h :: heap)"
  by (simp add: same_counters_def)

lemma no_wrap_add:
  assumes "unat (x :: uint32) + encoded_length c \<le> unat (cap :: uint32)"
  shows "unat (x + utf8_len c) = unat x + encoded_length c"
    and "\<not> cap < x + utf8_len c"
proof -
  have "unat cap < 2 ^ 32" using unsigned_less [of cap, where 'a = nat] by simp
  then show 1: "unat (x + utf8_len c) = unat x + encoded_length c"
    using assms by (simp add: unat_word_ariths utf8_len_unat)
  show "\<not> cap < x + utf8_len c"
    using assms 1 by (simp add: word_less_nat_alt)
qed

lemma push_fits:
  assumes v: "ts_string_valid h self"
    and fit: "unat (length_ts self) + encoded_length c \<le> unat (capacity_of self)"
  shows "\<exists>h' self' xs. ts_string_push h self c = Inr (h', self')
     \<and> stored_bytes h self = Inr xs
     \<and> stored_bytes h' self' = Inr (xs @ utf8_bytes c)
     \<and> unat (length_ts self') = unat (length_ts self) + encoded_length c
     \<and> ts_string_valid h' self' \<and> capacity_of self' = capacity_of self
     \<and> same_counters h' h \<and> (length_ts self \<le> SMALL_LEN \<longrightarrow> h' = h)
     \<and> ts_string_data self' = ts_string_data self"
proof -
  let ?n = "unat (length_ts self)"
  let ?data = "ts_string_data self"
  obtain buf where buf: "buffer_at h self ?data = Some buf"
      and lbuf: "length buf = unat (capacity_of self)"
      and st: "stored_bytes h self = Inr (take ?n buf)"
      and cap: "(if SMALL_LEN < length_ts self then large_capacity self else Inr SMALL_LEN)
                = Inr (capacity_of self)"
    using valid_buffer [OF v] by blast
  have push: "ts_string_push h self c = put_all ?data (utf8_bytes c) (h, self)"
    using no_wrap_add(2) [OF fit]
    by (simp add: ts_string_push_alt cap bindE_def)
  have room: "?n + length (utf8_bytes c) \<le> length buf"
    using fit lbuf by (simp add: length_utf8_bytes)
  have small: "length buf < 2 ^ 32"
    using lbuf unsigned_less [of "capacity_of self", where 'a = nat] by simp
  let ?new = "take ?n buf @ utf8_bytes c @ drop (?n + length (utf8_bytes c)) buf"
  obtain h' self' where run: "put_all ?data (utf8_bytes c) (h, self) = Inr (h', self')"
      and buf': "buffer_at h' self' ?data = Some ?new"
      and len': "unat (length_ts self') = ?n + length (utf8_bytes c)"
      and cnt: "same_counters h' h"
      and blk: "blocks h' = (case ?data of HeapPtr a \<Rightarrow> (blocks h)(a \<mapsto> ?new)
                | InlinePtr \<Rightarrow> blocks h | IndeterminatePtr \<Rightarrow> blocks h)"
      and con: "?data \<noteq> InlinePtr \<longrightarrow> content self' = content self"
    using put_all_buffer [OF buf room small] by blast
  have lnew: "length ?new = length buf"
    using room by simp
  show ?thesis
  proof (cases "SMALL_LEN < length_ts self")
    case True
    then obtain a cap where large: "content self = Large a cap" "?data = HeapPtr a"
      using v by (auto simp: ts_string_valid_def ts_string_data_def large_data_def
                    word_le_nat_alt word_less_nat_alt SMALL_LEN_def split: content_union.splits)
    have big': "SMALL_LEN < length_ts self'"
      using True len' by (simp add: word_less_nat_alt)
    have data': "ts_string_data self' = HeapPtr a"
      using big' con large by (simp add: ts_string_data_def large_data_def)
    have "stored_bytes h' self' = Inr (take ?n buf @ utf8_bytes c)"
      using buf' len' room large data'
      by (simp add: stored_bytes_def load_bytes_buffer)
    moreover have "ts_string_valid h' self'"
      using v large con big' len' blk lbuf lnew fit
      by (simp add: ts_string_valid_def capacity_of_def word_le_nat_alt length_utf8_bytes)
    moreover have "capacity_of self' = capacity_of self"
      using con large by (simp add: capacity_of_def)
    ultimately show ?thesis
      using push run st len' cnt True data' large
      by (simp add: length_utf8_bytes)
  next
    case False
    then have inl: "?data = InlinePtr"
      by (simp add: ts_string_data_def)
    obtain bs where bs: "content self = Small bs"
      using buf inl by (auto simp: buffer_at_def split: content_union.splits)
    have cap12: "capacity_of self = SMALL_LEN"
      using bs by (simp add: capacity_of_def)
    have con': "content self' = Small ?new"
      using buf' inl by (auto simp: buffer_at_def split: content_union.splits)
    have small': "\<not> SMALL_LEN < length_ts self'"
      using len' fit cap12 by (simp add: word_less_nat_alt length_utf8_bytes)
    have data': "ts_string_data self' = InlinePtr"
      using small' by (simp add: ts_string_data_def)
    have "stored_bytes h' self' = Inr (take ?n buf @ utf8_bytes c)"
      using buf' len' room inl data'
      by (simp add: stored_bytes_def load_bytes_buffer)
    moreover have "ts_string_valid h' self'"
      using con' small' lnew lbuf cap12
      by (simp add: ts_string_valid_def)
    moreover have "capacity_of self' = capacity_of self"
      using con' cap12 by (simp add: capacity_of_def)
    moreover have "h' = h"
      using cnt blk inl by (simp add: heap_eqI)
    ultimately show ?thesis
      using push run st len' cnt inl data'
      by (simp add: length_utf8_bytes)
  qed
qed

lemma grow_inline:
  assumes "content self = Small bs" and "length bs = 12" and "unat (length_ts self) \<le> 12"
  shows "grow h self SMALL_LEN InlinePtr =
           Inr (HeapPtr (Suc (brk h)),
                h\<lparr>blocks := (blocks h)(Suc (brk h) \<mapsto>
                       take (unat (length_ts self)) bs @ replicate (24 - unat (length_ts self)) 0),
                  brk := Suc (brk h), mallocs := Suc (mallocs h)\<rparr>,
                self\<lparr>content := Large (Suc (brk h)) 24\<rparr>)"
  using assms
  by (simp add: grow_def malloc_def load_bytes_def bindE_def SMALL_LEN_def Let_def)

lemma grow_heap:
  assumes "content self = Large a cap" and "blocks h a = Some blk" and "length blk = unat cap"
    and "SMALL_LEN < cap" and "unat cap < 2 ^ 31"
  shows "grow h self cap (HeapPtr a) =
           Inr (HeapPtr (Suc (brk h)),
                h\<lparr>blocks := ((blocks h)(a := None))(Suc (brk h) \<mapsto> blk @ replicate (unat cap) 0),
                  brk := Suc (brk h), reallocs := Suc (reallocs h)\<rparr>,
                self\<lparr>content := Large (Suc (brk h)) (cap * 2)\<rparr>)"
proof -
  have "unat (cap * 2) = 2 * unat cap"
    using assms(5) by (simp add: unat_word_ariths)
  then show ?thesis
    using assms
    by (simp add: grow_def realloc_def bindE_def Let_def)
qed

text \<open>What the writes after a growth step do, whatever the step was.\<close>

lemma push_after_grow:
  assumes cap: "(if SMALL_LEN < length_ts self then large_capacity self else Inr SMALL_LEN)
                = Inr old_cap"
    and grows: "old_cap < length_ts self + utf8_len c"
    and grow: "grow h self old_cap (ts_string_data self)
                 = Inr (HeapPtr p, h1, self\<lparr>content := Large p new_cap\<rparr>)"
    and blk: "blocks h1 p = Some (xs @ pad)"
    and xs: "length xs = unat (length_ts self)"
    and room: "unat (length_ts self) + encoded_length c \<le> length (xs @ pad)"
    and lcap: "length (xs @ pad) = unat new_cap"
    and big: "12 < unat (length_ts self) + encoded_length c"
    and p: "p \<noteq> 0"
  shows "\<exists>h' self'. ts_string_push h self c = Inr (h', self')
     \<and> stored_bytes h' self' = Inr (xs @ utf8_bytes c)
     \<and> unat (length_ts self') = unat (length_ts self) + encoded_length c
     \<and> ts_string_valid h' self' \<and> capacity_of self' = new_cap
     \<and> same_counters h' h1
     \<and> ts_string_data self' = HeapPtr p"
proof -
  let ?n = "unat (length_ts self)"
  let ?s1 = "self\<lparr>content := Large p new_cap\<rparr>"
  have push: "ts_string_push h self c = put_all (HeapPtr p) (utf8_bytes c) (h1, ?s1)"
    using cap grows grow by (simp add: ts_string_push_alt bindE_def)
  have buf: "buffer_at h1 ?s1 (HeapPtr p) = Some (xs @ pad)"
    using blk by (simp add: buffer_at_def)
  have room': "unat (length_ts ?s1) + length (utf8_bytes c) \<le> length (xs @ pad)"
    using room by (simp add: length_utf8_bytes)
  have small: "length (xs @ pad) < 2 ^ 32"
    using lcap unsigned_less [of new_cap, where 'a = nat] by simp
  let ?new = "take ?n (xs @ pad) @ utf8_bytes c @ drop (?n + length (utf8_bytes c)) (xs @ pad)"
  obtain h' self' where run: "put_all (HeapPtr p) (utf8_bytes c) (h1, ?s1) = Inr (h', self')"
      and buf': "buffer_at h' self' (HeapPtr p) = Some ?new"
      and len': "unat (length_ts self') = ?n + length (utf8_bytes c)"
      and cnt: "same_counters h' h1"
      and con: "content self' = Large p new_cap"
    using put_all_buffer [OF buf room' small] by auto
  have lnew: "length ?new = unat new_cap"
    using room' lcap by simp
  have big': "SMALL_LEN < length_ts self'"
    using big len' by (simp add: word_less_nat_alt SMALL_LEN_def length_utf8_bytes)
  have data': "ts_string_data self' = HeapPtr p"
    using big' con by (simp add: ts_string_data_def large_data_def)
  have "stored_bytes h' self' = Inr (xs @ utf8_bytes c)"
    using buf' len' room' data' xs
    by (simp add: stored_bytes_def load_bytes_buffer)
  moreover have "ts_string_valid h' self'"
    using con big' len' buf' lnew room' lcap p
    by (simp add: ts_string_valid_def buffer_at_def word_le_nat_alt)
  moreover have "capacity_of self' = new_cap"
    using con by (simp add: capacity_of_def)
  ultimately show ?thesis
    using push run len' cnt data'
    by (simp add: length_utf8_bytes)
qed

lemma push_grow_inline:
  assumes v: "ts_string_valid h self"
    and inl: "\<not> SMALL_LEN < length_ts self"
    and over: "12 < unat (length_ts self) + encoded_length c"
  shows "\<exists>h' self' xs. ts_string_push h self c = Inr (h', self')
     \<and> stored_bytes h self = Inr xs
     \<and> stored_bytes h' self' = Inr (xs @ utf8_bytes c)
     \<and> unat (length_ts self') = unat (length_ts self) + encoded_length c
     \<and> ts_string_valid h' self' \<and> capacity_of self' = 24
     \<and> brk h' = Suc (brk h) \<and> mallocs h' = Suc (mallocs h)
     \<and> reallocs h' = reallocs h \<and> frees h' = frees h
     \<and> ts_string_data self' = HeapPtr (Suc (brk h))"
proof -
  let ?n = "unat (length_ts self)"
  let ?p = "Suc (brk h)"
  obtain bs where bs: "content self = Small bs" "length bs = 12" "?n \<le> 12"
    using v inl by (auto simp: ts_string_valid_def SMALL_LEN_def word_le_nat_alt
                      word_less_nat_alt split: content_union.splits)
  let ?h1 = "h\<lparr>blocks := (blocks h)(?p \<mapsto> take ?n bs @ replicate (24 - ?n) 0),
                brk := ?p, mallocs := Suc (mallocs h)\<rparr>"
  have data: "ts_string_data self = InlinePtr"
    using inl by (simp add: ts_string_data_def)
  have st: "stored_bytes h self = Inr (take ?n bs)"
    using bs data by (simp add: stored_bytes_def load_bytes_def)
  have cap: "(if SMALL_LEN < length_ts self then large_capacity self else Inr SMALL_LEN)
                = Inr SMALL_LEN"
    using inl by simp
  have sum: "unat (length_ts self + utf8_len c) = ?n + encoded_length c"
    using bs(3) encoded_length_bounds(2) [of c]
    by (simp add: unat_word_ariths utf8_len_unat)
  have grows: "SMALL_LEN < length_ts self + utf8_len c"
    using over sum by (simp add: word_less_nat_alt SMALL_LEN_def)
  have grow: "grow h self SMALL_LEN (ts_string_data self)
                 = Inr (HeapPtr ?p, ?h1, self\<lparr>content := Large ?p 24\<rparr>)"
    using grow_inline [OF bs] data by simp
  have blk: "blocks ?h1 ?p = Some (take ?n bs @ replicate (24 - ?n) 0)"
    by simp
  have xs: "length (take ?n bs) = ?n"
    using bs by simp
  have room: "?n + encoded_length c \<le> length (take ?n bs @ replicate (24 - ?n) 0)"
    using bs encoded_length_bounds(2) [of c] by simp
  have lcap: "length (take ?n bs @ replicate (24 - ?n) 0) = unat (24 :: uint32)"
    using bs by simp
  obtain h' self' where res: "ts_string_push h self c = Inr (h', self')"
      "stored_bytes h' self' = Inr (take ?n bs @ utf8_bytes c)"
      "unat (length_ts self') = ?n + encoded_length c"
      "ts_string_valid h' self'" "capacity_of self' = 24"
      "same_counters h' ?h1" "ts_string_data self' = HeapPtr ?p"
    using push_after_grow [OF cap grows grow blk xs room lcap over] by auto
  show ?thesis
    using res st by (simp add: same_counters_def)
qed

lemma push_grow_heap:
  assumes v: "ts_string_valid h self"
    and hp: "SMALL_LEN < length_ts self"
    and over: "unat (capacity_of self) < unat (length_ts self) + encoded_length c"
    and cap31: "unat (capacity_of self) < 2 ^ 31"
  shows "\<exists>h' self' xs. ts_string_push h self c = Inr (h', self')
     \<and> stored_bytes h self = Inr xs
     \<and> stored_bytes h' self' = Inr (xs @ utf8_bytes c)
     \<and> unat (length_ts self') = unat (length_ts self) + encoded_length c
     \<and> ts_string_valid h' self' \<and> unat (capacity_of self') = 2 * unat (capacity_of self)
     \<and> brk h' = Suc (brk h) \<and> mallocs h' = mallocs h
     \<and> reallocs h' = Suc (reallocs h) \<and> frees h' = frees h
     \<and> ts_string_data self' = HeapPtr (Suc (brk h))"
proof -
  let ?n = "unat (length_ts self)"
  let ?p = "Suc (brk h)"
  obtain a cp blk where large: "content self = Large a cp" "blocks h a = Some blk"
      "length blk = unat cp" "SMALL_LEN < cp" and nle: "?n \<le> unat cp" and n12: "12 < ?n"
    using v hp by (auto simp: ts_string_valid_def SMALL_LEN_def word_le_nat_alt
                      word_less_nat_alt split: content_union.splits option.splits)
  have cp: "capacity_of self = cp"
    using large by (simp add: capacity_of_def)
  have cp31: "unat cp < 2 ^ 31"
    using cap31 cp by simp
  let ?h1 = "h\<lparr>blocks := ((blocks h)(a := None))(?p \<mapsto> blk @ replicate (unat cp) 0),
                brk := ?p, reallocs := Suc (reallocs h)\<rparr>"
  have data: "ts_string_data self = HeapPtr a"
    using hp large by (simp add: ts_string_data_def large_data_def)
  have st: "stored_bytes h self = Inr (take ?n blk)"
    using large data nle by (simp add: stored_bytes_def load_bytes_def)
  have cap: "(if SMALL_LEN < length_ts self then large_capacity self else Inr SMALL_LEN)
                = Inr cp"
    using hp large by (simp add: large_capacity_def)
  have sum: "unat (length_ts self + utf8_len c) = ?n + encoded_length c"
    using nle cp31 encoded_length_bounds(2) [of c]
    by (simp add: unat_word_ariths utf8_len_unat)
  have grows: "cp < length_ts self + utf8_len c"
    using over sum cp by (simp add: word_less_nat_alt)
  have dbl: "unat (cp * 2) = 2 * unat cp"
    using cp31 by (simp add: unat_word_ariths)
  have grow: "grow h self cp (ts_string_data self)
                 = Inr (HeapPtr ?p, ?h1, self\<lparr>content := Large ?p (cp * 2)\<rparr>)"
    using grow_heap [OF large cp31] data by simp
  have split: "blk @ replicate (unat cp) 0 = take ?n blk @ (drop ?n blk @ replicate (unat cp) 0)"
    by simp
  have blk: "blocks ?h1 ?p = Some (take ?n blk @ (drop ?n blk @ replicate (unat cp) 0))"
    by simp
  have xs: "length (take ?n blk) = ?n"
    using large nle by simp
  have room: "?n + encoded_length c \<le> length (take ?n blk @ (drop ?n blk @ replicate (unat cp) 0))"
    using large nle n12 encoded_length_bounds(2) [of c] by simp
  have lcap: "length (take ?n blk @ (drop ?n blk @ replicate (unat cp) 0)) = unat (cp * 2)"
    using large nle dbl by simp
  have big: "12 < ?n + encoded_length c"
    using n12 by simp
  obtain h' self' where res: "ts_string_push h self c = Inr (h', self')"
      "stored_bytes h' self' = Inr (take ?n blk @ utf8_bytes c)"
      "unat (length_ts self') = ?n + encoded_length c"
      "ts_string_valid h' self'" "capacity_of self' = cp * 2"
      "same_counters h' ?h1" "ts_string_data self' = HeapPtr ?p"
    using push_after_grow [OF cap grows grow blk xs room lcap big] by auto
  show ?thesis
    using res st cp dbl by (simp add: same_counters_def)
qed

section \<open>The bytes a push appends\<close>

lemma signed_drop_bit_nonneg:
  assumes "0xffff <s (c :: int32)"
  shows "signed_drop_bit n c = drop_bit n c"
proof -
  have "0 \<le> sint c"
    using assms by (simp add: word_sless_alt)
  then have msb: "\<not> bit c 31"
    using bit_last_iff [of c] by simp
  show ?thesis
  proof (rule bit_word_eqI)
    fix k assume "k < LENGTH(32)"
    then show "bit (signed_drop_bit n c) k = bit (drop_bit n c) k"
      using msb bit_imp_le_length [of c "n + k"]
      by (auto simp: bit_signed_drop_bit_iff bit_drop_bit_eq)
  qed
qed

lemma utf8_bytes_four:
  assumes "0xffff <s (c :: int32)"
  shows "utf8_bytes c =
           [ucast (0xf0 OR drop_bit 18 c), ucast (0x80 OR (drop_bit 12 c AND 0x3f)),
            ucast (0x80 OR (drop_bit 6 c AND 0x3f)), ucast (0x80 OR (c AND 0x3f))]"
proof -
  have "\<not> c \<le>s 0xffff" using assms by (simp add: word_sless_alt word_sle_eq)
  moreover have "\<not> c \<le>s 0x7ff" using assms by (simp add: word_sless_alt word_sle_eq)
  moreover have "\<not> c \<le>s 0x7f" using assms by (simp add: word_sless_alt word_sle_eq)
  ultimately show ?thesis
    by (simp add: utf8_bytes_def signed_drop_bit_nonneg [OF assms])
qed

section \<open>Runs of pushes\<close>

lemma doubled_small:
  assumes "k \<le> 27"
  shows "(12::nat) * 2 ^ k \<le> 1610612736"
proof -
  have "(2::nat) ^ k \<le> 2 ^ 27"
    using assms by (intro power_increasing) simp_all
  then show ?thesis by simp
qed

lemma valid_inline_capacity:
  "ts_string_valid h self \<Longrightarrow> \<not> SMALL_LEN < length_ts self \<Longrightarrow> unat (capacity_of self) = 12"
  by (auto simp: ts_string_valid_def capacity_of_def SMALL_LEN_def split: content_union.splits)

lemma valid_length_le_capacity:
  "ts_string_valid h self \<Longrightarrow> unat (length_ts self) \<le> unat (capacity_of self)"
  by (auto simp: ts_string_valid_def capacity_of_def SMALL_LEN_def word_le_nat_alt
        split: content_union.splits)

lemma valid_heap_data:
  "ts_string_valid h self \<Longrightarrow> SMALL_LEN < length_ts self \<Longrightarrow>
     \<exists>p. ts_string_data self = HeapPtr p"
  by (auto simp: ts_string_valid_def ts_string_data_def large_data_def SMALL_LEN_def
        word_le_nat_alt word_less_nat_alt split: content_union.splits)

lemma push_step:
  assumes v: "ts_string_valid h self" and d: "doubled_capacity self"
    and bound: "unat (length_ts self) + encoded_length c \<le> 3221225472"
  shows "\<exists>h' self' xs. ts_string_push h self c = Inr (h', self')
     \<and> stored_bytes h self = Inr xs
     \<and> stored_bytes h' self' = Inr (xs @ utf8_bytes c)
     \<and> unat (length_ts self') = unat (length_ts self) + encoded_length c
     \<and> ts_string_valid h' self' \<and> doubled_capacity self'
     \<and> frees h' = frees h
     \<and> (SMALL_LEN < length_ts self \<longrightarrow> mallocs h' = mallocs h)
     \<and> (unat (length_ts self) + encoded_length c \<le> 12 \<longrightarrow> h' = h)
     \<and> (\<not> SMALL_LEN < length_ts self \<and> 12 < unat (length_ts self) + encoded_length c \<longrightarrow>
           mallocs h' = Suc (mallocs h) \<and> reallocs h' = reallocs h
           \<and> ts_string_data self' = HeapPtr (Suc (brk h)))"
proof -
  let ?n = "unat (length_ts self)"
  obtain k where k: "k \<le> 28" "unat (capacity_of self) = 12 * 2 ^ k"
    using d by (auto simp: doubled_capacity_def)
  have cap12: "12 \<le> unat (capacity_of self)"
    using k by simp
  show ?thesis
  proof (cases "?n + encoded_length c \<le> unat (capacity_of self)")
    case True
    have le12: "?n + encoded_length c \<le> 12 \<Longrightarrow> length_ts self \<le> SMALL_LEN"
      using encoded_length_bounds(1) [of c] by (simp add: word_le_nat_alt SMALL_LEN_def)
    have same: "\<And>h'. same_counters h' h \<Longrightarrow> frees h' = frees h \<and> mallocs h' = mallocs h"
      by (simp add: same_counters_def)
    have notgrow: "\<not> (\<not> SMALL_LEN < length_ts self \<and> 12 < ?n + encoded_length c)"
      using True valid_inline_capacity [OF v] by auto
    obtain h' self' xs where r: "ts_string_push h self c = Inr (h', self')"
      "stored_bytes h self = Inr xs" "stored_bytes h' self' = Inr (xs @ utf8_bytes c)"
      "unat (length_ts self') = ?n + encoded_length c"
      "ts_string_valid h' self'" "capacity_of self' = capacity_of self"
      "same_counters h' h" "length_ts self \<le> SMALL_LEN \<longrightarrow> h' = h"
      using push_fits [OF v True] by blast
    have "doubled_capacity self'"
      using d r(6) by (simp add: doubled_capacity_def)
    then show ?thesis
      using r same [OF r(7)] le12 notgrow by auto
  next
    case False
    then have "12 * 2 ^ k < ?n + encoded_length c"
      using k by simp
    then have "k \<noteq> 28"
      using bound by auto
    then have k27: "k \<le> 27"
      using k(1) by simp
    have cap31: "unat (capacity_of self) < 2 ^ 31"
      using doubled_small [OF k27] k(2) by simp
    have gt12: "12 < ?n + encoded_length c"
      using False cap12 by simp
    show ?thesis
    proof (cases "SMALL_LEN < length_ts self")
      case True
      obtain h' self' xs where r: "ts_string_push h self c = Inr (h', self')"
        "stored_bytes h self = Inr xs" "stored_bytes h' self' = Inr (xs @ utf8_bytes c)"
        "unat (length_ts self') = ?n + encoded_length c"
        "ts_string_valid h' self'" "unat (capacity_of self') = 2 * unat (capacity_of self)"
        "mallocs h' = mallocs h" "frees h' = frees h"
        using push_grow_heap [OF v True _ cap31, of c] False by (simp add: not_le) blast
      have "unat (capacity_of self') = 12 * 2 ^ Suc k"
        using r(6) k(2) by simp
      then have "doubled_capacity self'"
        using k27 unfolding doubled_capacity_def by (intro exI [of _ "Suc k"]) simp
      then show ?thesis
        using r True gt12 by auto
    next
      case inl: False
      obtain h' self' xs where r: "ts_string_push h self c = Inr (h', self')"
        "stored_bytes h self = Inr xs" "stored_bytes h' self' = Inr (xs @ utf8_bytes c)"
        "unat (length_ts self') = ?n + encoded_length c"
        "ts_string_valid h' self'" "capacity_of self' = 24"
        "mallocs h' = Suc (mallocs h)" "reallocs h' = reallocs h" "frees h' = frees h"
        "ts_string_data self' = HeapPtr (Suc (brk h))"
        using push_grow_inline [OF v inl gt12] by blast
      have "doubled_capacity self'"
        using r(6) unfolding doubled_capacity_def by (intro exI [of _ 1]) simp
      then show ?thesis
        using r inl gt12 by auto
    qed
  qed
qed

lemma utf8_bytes_nonempty: "\<exists>b bs. utf8_bytes c = b # bs"
  by (simp add: utf8_bytes_def)

lemma put_out_of_bounds:
  assumes "blocks h p = Some blk" and "length blk \<le> unat (length_ts self)"
  shows "put (HeapPtr p) b (h, self) = Inl OutOfBounds"
  using assms by (simp add: put_def store_def bindE_def)

lemma push_overflow_faults:
  assumes v: "ts_string_valid h self" and d: "doubled_capacity self"
    and over: "3221225472 < unat (length_ts self) + encoded_length c"
  shows "ts_string_push h self c = Inl OutOfBounds"
proof -
  let ?n = "unat (length_ts self)"
  obtain k where k: "k \<le> 28" "unat (capacity_of self) = 12 * 2 ^ k"
    using d by (auto simp: doubled_capacity_def)
  have nle: "?n \<le> unat (capacity_of self)"
    by (rule valid_length_le_capacity [OF v])
  have "\<not> k \<le> 27"
    using doubled_small [of k] k(2) nle over encoded_length_bounds(2) [of c] by auto
  then have "k = 28" using k(1) by simp
  then have cap: "unat (capacity_of self) = 3221225472"
    using k(2) by simp
  have big: "12 < ?n"
    using over encoded_length_bounds(2) [of c] by simp
  then have hp: "SMALL_LEN < length_ts self"
    by (simp add: word_less_nat_alt SMALL_LEN_def)
  obtain a cp blk where large: "content self = Large a cp" "blocks h a = Some blk"
      "length blk = unat cp" "SMALL_LEN < cp"
    using v hp by (auto simp: ts_string_valid_def SMALL_LEN_def word_le_nat_alt
                      word_less_nat_alt split: content_union.splits option.splits)
  have cp: "unat cp = 3221225472"
    using cap large by (simp add: capacity_of_def)
  have data: "ts_string_data self = HeapPtr a"
    using hp large by (simp add: ts_string_data_def large_data_def)
  have capq: "(if SMALL_LEN < length_ts self then large_capacity self else Inr SMALL_LEN)
                = Inr cp"
    using hp large by (simp add: large_capacity_def)
  have sum: "unat (length_ts self + utf8_len c) = ?n + encoded_length c"
    using nle cap encoded_length_bounds(2) [of c]
    by (simp add: unat_word_ariths utf8_len_unat)
  have grows: "cp < length_ts self + utf8_len c"
    using over sum cp by (simp add: word_less_nat_alt)
  have dbl: "unat (cp * 2) = 2147483648"
    using cp by (simp add: unat_word_ariths)
  let ?p = "Suc (brk h)"
  let ?h1 = "h\<lparr>blocks := ((blocks h)(a := None))(?p \<mapsto> take 2147483648 blk),
                brk := ?p, reallocs := Suc (reallocs h)\<rparr>"
  let ?s1 = "self\<lparr>content := Large ?p (cp * 2)\<rparr>"
  have grow: "grow h self cp (HeapPtr a) = Inr (HeapPtr ?p, ?h1, ?s1)"
    using large cp dbl by (simp add: grow_def realloc_def bindE_def Let_def)
  obtain b bs where enc: "utf8_bytes c = b # bs"
    using utf8_bytes_nonempty by blast
  have "put (HeapPtr ?p) b (?h1, ?s1) = Inl OutOfBounds"
    using large cp over encoded_length_bounds(2) [of c]
    by (intro put_out_of_bounds [where blk = "take 2147483648 blk"]) simp_all
  then have "put_all (HeapPtr ?p) (utf8_bytes c) (?h1, ?s1) = Inl OutOfBounds"
    using enc by (simp add: bindE_def)
  then show ?thesis
    using capq grows grow data by (simp add: ts_string_push_alt bindE_def)
qed

lemma push_all_run:
  assumes "ts_string_valid h self" and "doubled_capacity self" and "stored_bytes h self = Inr xs"
  shows "(\<forall>h' self'. push_all h self cs = Inr (h', self') \<longrightarrow>
            ts_string_valid h' self' \<and> doubled_capacity self'
            \<and> unat (length_ts self') = unat (length_ts self) + total_length cs
            \<and> stored_bytes h' self' = Inr (xs @ concat (map utf8_bytes cs))
            \<and> frees h' = frees h
            \<and> (SMALL_LEN < length_ts self \<longrightarrow> mallocs h' = mallocs h)
            \<and> (unat (length_ts self) + total_length cs \<le> 12 \<longrightarrow> h' = h))
         \<and> (unat (length_ts self) + total_length cs \<le> 3221225472 \<longrightarrow>
              (\<exists>h' self'. push_all h self cs = Inr (h', self')))"
  using assms
proof (induction cs arbitrary: h self xs)
  case Nil
  then show ?case by (simp add: total_length_def)
next
  case (Cons c cs)
  let ?n = "unat (length_ts self)"
  have tl: "total_length (c # cs) = encoded_length c + total_length cs"
    by (simp add: total_length_def)
  show ?case
  proof (cases "?n + encoded_length c \<le> 3221225472")
    case False
    then have "ts_string_push h self c = Inl OutOfBounds"
      using push_overflow_faults [OF Cons.prems(1,2), of c] by simp
    then have "push_all h self (c # cs) = Inl OutOfBounds"
      by (simp add: bindE_def)
    moreover have "\<not> ?n + total_length (c # cs) \<le> 3221225472"
      using False tl by simp
    ultimately show ?thesis by simp
  next
    case True
    obtain h1 s1 ys where r: "ts_string_push h self c = Inr (h1, s1)"
      "stored_bytes h self = Inr ys" "stored_bytes h1 s1 = Inr (ys @ utf8_bytes c)"
      "unat (length_ts s1) = ?n + encoded_length c"
      "ts_string_valid h1 s1" "doubled_capacity s1" "frees h1 = frees h"
      "SMALL_LEN < length_ts self \<longrightarrow> mallocs h1 = mallocs h"
      "?n + encoded_length c \<le> 12 \<longrightarrow> h1 = h"
      using push_step [OF Cons.prems(1,2) True] by blast
    have ys: "ys = xs" using r(2) Cons.prems(3) by simp
    have run: "push_all h self (c # cs) = push_all h1 s1 cs"
      using r(1) by (simp add: bindE_def)
    have mono: "SMALL_LEN < length_ts self \<longrightarrow> SMALL_LEN < length_ts s1"
      using r(4) by (simp add: word_less_nat_alt)
    have len: "unat (length_ts s1) + total_length cs = ?n + total_length (c # cs)"
      using r(4) tl by simp
    have bytes: "(ys @ utf8_bytes c) @ concat (map utf8_bytes cs)
                   = xs @ concat (map utf8_bytes (c # cs))"
      using ys by simp
    note IH = Cons.IH [OF r(5) r(6) r(3), unfolded len bytes]
    have total: "?n + total_length (c # cs) \<le> 3221225472 \<longrightarrow>
              (\<exists>h' self'. push_all h self (c # cs) = Inr (h', self'))"
      using IH unfolding run by blast
    have part: "ts_string_valid h' self' \<and> doubled_capacity self'
            \<and> unat (length_ts self') = ?n + total_length (c # cs)
            \<and> stored_bytes h' self' = Inr (xs @ concat (map utf8_bytes (c # cs)))
            \<and> frees h' = frees h
            \<and> (SMALL_LEN < length_ts self \<longrightarrow> mallocs h' = mallocs h)
            \<and> (?n + total_length (c # cs) \<le> 12 \<longrightarrow> h' = h)"
      if res: "push_all h self (c # cs) = Inr (h', self')" for h' self'
    proof -
      have res1: "push_all h1 s1 cs = Inr (h', self')"
        using res run by simp
      have a: "ts_string_valid h' self'" "doubled_capacity self'"
        "unat (length_ts self') = ?n + total_length (c # cs)"
        "stored_bytes h' self' = Inr (xs @ concat (map utf8_bytes (c # cs)))"
        "frees h' = frees h1"
        "SMALL_LEN < length_ts s1 \<longrightarrow> mallocs h' = mallocs h1"
        "?n + total_length (c # cs) \<le> 12 \<longrightarrow> h' = h1"
        using IH res1 by blast+
      have "?n + total_length (c # cs) \<le> 12 \<longrightarrow> ?n + encoded_length c \<le> 12"
        using tl by simp
      then have "?n + total_length (c # cs) \<le> 12 \<longrightarrow> h' = h"
        using a(7) r(9) by simp
      moreover have "SMALL_LEN < length_ts self \<longrightarrow> mallocs h' = mallocs h"
        using a(6) r(8) mono by simp
      moreover have "frees h' = frees h"
        using a(5) r(7) by simp
      ultimately show ?thesis
        using a(1-4) by simp
    qed
    show ?thesis
      using total part by blast
  qed
qed

lemma new_valid:
  "ts_string_valid h ts_string_new" "doubled_capacity ts_string_new"
  "stored_bytes h ts_string_new = Inr []" "unat (length_ts ts_string_new) = 0"
  "\<not> SMALL_LEN < length_ts ts_string_new"
proof -
  show "ts_string_valid h ts_string_new"
    by (simp add: ts_string_valid_def ts_string_new_def SMALL_LEN_def)
  show "doubled_capacity ts_string_new"
    unfolding doubled_capacity_def
    by (intro exI [of _ 0]) (simp add: capacity_of_def ts_string_new_def SMALL_LEN_def)
  show "stored_bytes h ts_string_new = Inr []"
    by (simp add: stored_bytes_def ts_string_new_def ts_string_data_def load_bytes_def SMALL_LEN_def)
  show "unat (length_ts ts_string_new) = 0"
    by (simp add: ts_string_new_def)
  show "\<not> SMALL_LEN < length_ts ts_string_new"
    by (simp add: ts_string_new_def SMALL_LEN_def)
qed

text \<open>
  Claim C7. For a string built by pushes alone from \<^verbatim>\<open>ts_string_new\<close>, the length
  field equals the sum of the encoded lengths (1, 2, 3 or 4 bytes by value) of the pushed
  codepoints. This holds of every run that returns, and every run whose total stays
  within \<open>3221225472 = 12 * 2^28\<close> bytes does return; beyond that the doubled capacity
  wraps around \<open>2^32\<close> and the next write is outside the block.
\<close>

theorem push_all_length:
  "(total_length cs \<le> 3221225472 \<longrightarrow>
      (\<exists>h' self'. push_all h ts_string_new cs = Inr (h', self')))
   \<and> (\<forall>h' self'. push_all h ts_string_new cs = Inr (h', self') \<longrightarrow>
         unat (length_ts self') = total_length cs)"
  using push_all_run [OF new_valid(1) new_valid(2) new_valid(3), of h cs]
  by (simp add: new_valid(4))

theorem push_all_length_witness:
  "push_all heap_empty ts_string_new [0x41, 0xE9, 0x4E2D, 0x1F600]
     = Inr (heap_empty,
            \<lparr>content = Small [0x41, 0xC3, 0xA9, 0xE4, 0xB8, 0xAD, 0xF0, 0x9F, 0x98, 0x80, 0, 0],
              length_ts = 10\<rparr>)
   \<and> total_length [0x41, 0xE9, 0x4E2D, 0x1F600] = 10"
  using push_all_length [of "[0x41, 0xE9, 0x4E2D, 0x1F600]" heap_empty]
  by (simp add: string_defs total_length_def encoded_length_def)

text \<open>
  Claim C4. While the cumulative encoded length stays at or below \<^verbatim>\<open>SMALL_LEN = 12\<close>,
  the pushes leave the heap exactly as it was and the bytes are in the inline array.
  The first push that takes the length past 12 calls \<^verbatim>\<open>malloc\<close> once (and neither
  \<^verbatim>\<open>realloc\<close> nor \<^verbatim>\<open>free\<close>), and the new block starts with the bytes pushed before,
  unchanged, followed by the new codepoint's bytes. After that every further run of
  pushes that returns leaves the string heap-backed, with no further \<^verbatim>\<open>malloc\<close> and the
  bytes still a prefix; and such runs return as long as the total stays within
  \<open>12 * 2^28\<close> bytes. Since the statement is about every \<open>cs\<close> of total at most 12, it
  covers every prefix of the inline phase.
\<close>

theorem inline_until_threshold_then_heap:
  assumes "total_length cs \<le> 12"
  shows "\<exists>self1. push_all h ts_string_new cs = Inr (h, self1)
          \<and> ts_string_data self1 = InlinePtr
          \<and> stored_bytes h self1 = Inr (concat (map utf8_bytes cs))
          \<and> (12 < total_length (cs @ [c]) \<longrightarrow>
              (\<exists>h2 self2. ts_string_push h self1 c = Inr (h2, self2)
                 \<and> mallocs h2 = Suc (mallocs h) \<and> reallocs h2 = reallocs h \<and> frees h2 = frees h
                 \<and> ts_string_data self2 = HeapPtr (Suc (brk h))
                 \<and> stored_bytes h2 self2 = Inr (concat (map utf8_bytes cs) @ utf8_bytes c)
                 \<and> (\<forall>ds h3 self3. push_all h2 self2 ds = Inr (h3, self3) \<longrightarrow>
                       SMALL_LEN < length_ts self3 \<and> (\<exists>p. ts_string_data self3 = HeapPtr p)
                       \<and> mallocs h3 = mallocs h2 \<and> frees h3 = frees h2
                       \<and> stored_bytes h3 self3 = Inr (concat (map utf8_bytes (cs @ c # ds))))
                 \<and> (\<forall>ds. total_length (cs @ c # ds) \<le> 3221225472 \<longrightarrow>
                       (\<exists>h3 self3. push_all h2 self2 ds = Inr (h3, self3)))))"
proof -
  note run0 = push_all_run [OF new_valid(1) new_valid(2) new_valid(3), of h cs,
                unfolded new_valid(4), simplified]
  have "total_length cs \<le> 3221225472" using assms by simp
  then obtain h1 self1 where r1: "push_all h ts_string_new cs = Inr (h1, self1)"
    using run0 by blast
  have p1: "ts_string_valid h1 self1" "doubled_capacity self1"
    "unat (length_ts self1) = total_length cs"
    "stored_bytes h1 self1 = Inr (concat (map utf8_bytes cs))" "h1 = h"
    using run0 r1 assms by blast+
  have small1: "\<not> SMALL_LEN < length_ts self1"
    using p1(3) assms by (simp add: word_less_nat_alt SMALL_LEN_def)
  then have data1: "ts_string_data self1 = InlinePtr"
    by (simp add: ts_string_data_def)
  have tl: "total_length (cs @ [c]) = total_length cs + encoded_length c"
    by (simp add: total_length_def)
  have second: "\<exists>h2 self2. ts_string_push h self1 c = Inr (h2, self2)
                 \<and> mallocs h2 = Suc (mallocs h) \<and> reallocs h2 = reallocs h \<and> frees h2 = frees h
                 \<and> ts_string_data self2 = HeapPtr (Suc (brk h))
                 \<and> stored_bytes h2 self2 = Inr (concat (map utf8_bytes cs) @ utf8_bytes c)
                 \<and> (\<forall>ds h3 self3. push_all h2 self2 ds = Inr (h3, self3) \<longrightarrow>
                       SMALL_LEN < length_ts self3 \<and> (\<exists>p. ts_string_data self3 = HeapPtr p)
                       \<and> mallocs h3 = mallocs h2 \<and> frees h3 = frees h2
                       \<and> stored_bytes h3 self3 = Inr (concat (map utf8_bytes (cs @ c # ds))))
                 \<and> (\<forall>ds. total_length (cs @ c # ds) \<le> 3221225472 \<longrightarrow>
                       (\<exists>h3 self3. push_all h2 self2 ds = Inr (h3, self3)))"
    if over: "12 < total_length (cs @ [c])"
  proof -
    have gt: "12 < unat (length_ts self1) + encoded_length c"
      using over tl p1(3) by simp
    have bound: "unat (length_ts self1) + encoded_length c \<le> 3221225472"
      using p1(3) assms encoded_length_bounds(2) [of c] by simp
    obtain h2 self2 xs where r2: "ts_string_push h self1 c = Inr (h2, self2)"
      "stored_bytes h self1 = Inr xs" "stored_bytes h2 self2 = Inr (xs @ utf8_bytes c)"
      "unat (length_ts self2) = unat (length_ts self1) + encoded_length c"
      "ts_string_valid h2 self2" "doubled_capacity self2" "frees h2 = frees h"
      and grown: "\<not> SMALL_LEN < length_ts self1 \<and> 12 < unat (length_ts self1) + encoded_length c \<longrightarrow>
           mallocs h2 = Suc (mallocs h) \<and> reallocs h2 = reallocs h
           \<and> ts_string_data self2 = HeapPtr (Suc (brk h))"
      using push_step [OF p1(1) [unfolded p1(5)] p1(2) bound] by blast
    have xs: "xs = concat (map utf8_bytes cs)"
      using r2(2) p1(4) p1(5) by simp
    have big2: "SMALL_LEN < length_ts self2"
      using r2(4) gt by (simp add: word_less_nat_alt SMALL_LEN_def)
    have len2: "unat (length_ts self2) = total_length (cs @ [c])"
      using r2(4) p1(3) tl by simp
    have after: "SMALL_LEN < length_ts self3 \<and> (\<exists>p. ts_string_data self3 = HeapPtr p)
                       \<and> mallocs h3 = mallocs h2 \<and> frees h3 = frees h2
                       \<and> stored_bytes h3 self3 = Inr (concat (map utf8_bytes (cs @ c # ds)))"
      if r3: "push_all h2 self2 ds = Inr (h3, self3)" for ds h3 self3
    proof -
      note run2 = push_all_run [OF r2(5) r2(6) r2(3), of ds]
      have q: "ts_string_valid h3 self3"
        "unat (length_ts self3) = unat (length_ts self2) + total_length ds"
        "stored_bytes h3 self3 = Inr ((xs @ utf8_bytes c) @ concat (map utf8_bytes ds))"
        "frees h3 = frees h2" "mallocs h3 = mallocs h2"
        using run2 r3 big2 by blast+
      have big3: "SMALL_LEN < length_ts self3"
        using q(2) big2 by (simp add: word_less_nat_alt)
      show ?thesis
        using q big3 xs valid_heap_data [OF q(1) big3] by simp
    qed
    have total: "\<exists>h3 self3. push_all h2 self2 ds = Inr (h3, self3)"
      if b: "total_length (cs @ c # ds) \<le> 3221225472" for ds
    proof -
      have "total_length (cs @ c # ds) = total_length (cs @ [c]) + total_length ds"
        by (simp add: total_length_def)
      then have "unat (length_ts self2) + total_length ds \<le> 3221225472"
        using b len2 by simp
      then show ?thesis
        using push_all_run [OF r2(5) r2(6) r2(3), of ds] by blast
    qed
    show ?thesis
      using r2(1,3,7) grown small1 gt xs after total by blast
  qed
  show ?thesis
    using r1 p1(4,5) data1 second by blast
qed

theorem inline_until_threshold_then_heap_witness:
  "\<exists>self1. push_all heap_empty ts_string_new [0x4E2D, 0x4E2D, 0x4E2D, 0x4E2D] = Inr (heap_empty, self1)
     \<and> ts_string_data self1 = InlinePtr
     \<and> (\<exists>h2 self2. ts_string_push heap_empty self1 0x41 = Inr (h2, self2)
           \<and> mallocs h2 = 1 \<and> reallocs h2 = 0 \<and> frees h2 = 0
           \<and> ts_string_data self2 = HeapPtr 1
           \<and> stored_bytes h2 self2
               = Inr (concat (map utf8_bytes [0x4E2D, 0x4E2D, 0x4E2D, 0x4E2D]) @ utf8_bytes 0x41))"
  using inline_until_threshold_then_heap [of "[0x4E2D, 0x4E2D, 0x4E2D, 0x4E2D]" heap_empty "0x41"]
  by (simp add: total_length_def encoded_length_def heap_empty_def) blast

section \<open>What every returning push appends\<close>

lemma put_all_faults:
  assumes "buffer_at h self data = Some buf" and "bs \<noteq> []"
    and "length buf < unat (length_ts self) + length bs" and "length buf < 2 ^ 32"
  shows "\<exists>e. put_all data bs (h, self) = Inl e"
  using assms
proof (induction bs arbitrary: h self buf)
  case Nil
  then show ?case by simp
next
  case (Cons b bs)
  let ?n = "unat (length_ts self)"
  show ?case
  proof (cases "?n < length buf")
    case False
    then have "\<exists>e. put data b (h, self) = Inl e"
      using Cons.prems(1)
      by (auto simp: put_def store_def buffer_at_def bindE_def
            split: ptr.splits content_union.splits option.splits)
    then show ?thesis by (auto simp: bindE_def)
  next
    case True
    obtain h1 s1 where st: "put data b (h, self) = Inr (h1, s1)"
        and buf1: "buffer_at h1 s1 data = Some (buf[?n := b])"
        and len1: "length_ts s1 = length_ts self + 1"
      using put_buffer [OF Cons.prems(1) True, of b] by blast
    have n1: "unat (length_ts s1) = Suc ?n"
      using len1 True Cons.prems(4) by (simp add: unat_word_ariths)
    have ne: "bs \<noteq> []"
      using Cons.prems(3) True by auto
    have over: "length (buf[?n := b]) < unat (length_ts s1) + length bs"
      using Cons.prems(3) n1 by simp
    have small: "length (buf[?n := b]) < 2 ^ 32"
      using Cons.prems(4) by simp
    obtain e where "put_all data bs (h1, s1) = Inl e"
      using Cons.IH [OF buf1 ne over small] by blast
    then show ?thesis
      using st by (simp add: bindE_def)
  qed
qed

lemma push_wrap_faults:
  assumes v: "ts_string_valid h self"
    and nofit: "unat (capacity_of self) < unat (length_ts self) + encoded_length c"
    and big: "2 ^ 31 \<le> unat (capacity_of self)"
  shows "\<exists>e. ts_string_push h self c = Inl e"
proof -
  let ?n = "unat (length_ts self)"
  have hp: "SMALL_LEN < length_ts self"
  proof (rule ccontr)
    assume "\<not> SMALL_LEN < length_ts self"
    then have "unat (capacity_of self) = 12" by (rule valid_inline_capacity [OF v])
    then show False using big by simp
  qed
  obtain a cp blk where large: "content self = Large a cp" "blocks h a = Some blk"
      "length blk = unat cp" "SMALL_LEN < cp"
    using v hp by (auto simp: ts_string_valid_def SMALL_LEN_def word_le_nat_alt
                      word_less_nat_alt split: content_union.splits option.splits)
  have cp: "capacity_of self = cp"
    using large by (simp add: capacity_of_def)
  have cpbig: "2 ^ 31 \<le> unat cp" using big cp by simp
  have cplt: "unat cp < 2 ^ 32" using unsigned_less [of cp, where 'a = nat] by simp
  have data: "ts_string_data self = HeapPtr a"
    using hp large by (simp add: ts_string_data_def large_data_def)
  have capq: "(if SMALL_LEN < length_ts self then large_capacity self else Inr SMALL_LEN)
                = Inr cp"
    using hp large by (simp add: large_capacity_def)
  have ne: "utf8_bytes c \<noteq> []"
    using utf8_bytes_nonempty [of c] by auto
  show ?thesis
  proof (cases "cp < length_ts self + utf8_len c")
    case False
    have buf: "buffer_at h self (HeapPtr a) = Some blk"
      using large by (simp add: buffer_at_def)
    have over: "length blk < ?n + length (utf8_bytes c)"
      using nofit cp large by (simp add: length_utf8_bytes)
    have small: "length blk < 2 ^ 32" using large cplt by simp
    obtain e where "put_all (HeapPtr a) (utf8_bytes c) (h, self) = Inl e"
      using put_all_faults [OF buf ne over small] by blast
    then show ?thesis
      using capq False data by (simp add: ts_string_push_alt bindE_def)
  next
    case True
    let ?m = "unat (cp * 2)"
    have m: "?m = 2 * unat cp - 2 ^ 32"
    proof -
      have "?m = (2 * unat cp) mod 2 ^ 32"
        by (simp add: unat_word_ariths mult.commute)
      also have "\<dots> = 2 * unat cp - 2 ^ 32"
        using cpbig cplt by (simp add: mod_if)
      finally show ?thesis .
    qed
    then have mlt: "?m < unat cp" using cplt cpbig by simp
    let ?p = "Suc (brk h)"
    let ?h1 = "h\<lparr>blocks := ((blocks h)(a := None))(?p \<mapsto> take ?m blk),
                  brk := ?p, reallocs := Suc (reallocs h)\<rparr>"
    let ?s1 = "self\<lparr>content := Large ?p (cp * 2)\<rparr>"
    have grow: "grow h self cp (HeapPtr a) = Inr (HeapPtr ?p, ?h1, ?s1)"
      using large mlt by (simp add: grow_def realloc_def bindE_def Let_def)
    have buf: "buffer_at ?h1 ?s1 (HeapPtr ?p) = Some (take ?m blk)"
      by (simp add: buffer_at_def)
    have over: "length (take ?m blk) < unat (length_ts ?s1) + length (utf8_bytes c)"
      using nofit cp large mlt by (simp add: length_utf8_bytes)
    have small: "length (take ?m blk) < 2 ^ 32" using large cplt by simp
    obtain e where "put_all (HeapPtr ?p) (utf8_bytes c) (?h1, ?s1) = Inl e"
      using put_all_faults [OF buf ne over small] by blast
    then show ?thesis
      using capq True data grow by (simp add: ts_string_push_alt bindE_def)
  qed
qed

text \<open>
  Claim C2. Every push onto a valid string that returns has appended the bytes
  \<open>utf8_bytes c\<close> to the stored bytes and nothing else: one byte for \<open>c \<le> 0x7F\<close>, two for
  \<open>c \<le> 0x7FF\<close>, three for \<open>c \<le> 0xFFFF\<close>, four otherwise; and for \<open>c > 0xFFFF\<close> the four
  bytes are, in this order, the lead byte \<open>0xF0 | (c >> 18)\<close> and the continuation bytes
  \<open>0x80 | ((c >> 12) & 0x3F)\<close>, \<open>0x80 | ((c >> 6) & 0x3F)\<close> and \<open>0x80 | (c & 0x3F)\<close>, each
  truncated to a \<^verbatim>\<open>char\<close>. The push returns whenever the capacity suffices or can be
  doubled within 32 bits (otherwise the write is outside the block).
\<close>

theorem ts_string_push_appends_utf8:
  assumes "ts_string_valid h self"
  shows "(\<forall>h' self'. ts_string_push h self c = Inr (h', self') \<longrightarrow>
            (\<exists>xs. stored_bytes h self = Inr xs
                \<and> stored_bytes h' self' = Inr (xs @ utf8_bytes c))
            \<and> unat (length_ts self') = unat (length_ts self) + length (utf8_bytes c))
      \<and> (unat (length_ts self) + encoded_length c \<le> unat (capacity_of self)
           \<or> unat (capacity_of self) < 2 ^ 31 \<longrightarrow>
             (\<exists>h' self'. ts_string_push h self c = Inr (h', self')))
      \<and> length (utf8_bytes c)
          = (if c \<le>s 0x7f then 1 else if c \<le>s 0x7ff then 2 else if c \<le>s 0xffff then 3 else 4)
      \<and> (0xffff <s c \<longrightarrow> utf8_bytes c =
           [ucast (0xf0 OR drop_bit 18 c), ucast (0x80 OR (drop_bit 12 c AND 0x3f)),
            ucast (0x80 OR (drop_bit 6 c AND 0x3f)), ucast (0x80 OR (c AND 0x3f))])"
proof -
  let ?ok = "unat (length_ts self) + encoded_length c \<le> unat (capacity_of self)
               \<or> unat (capacity_of self) < 2 ^ 31"
  have len: "length (utf8_bytes c)
          = (if c \<le>s 0x7f then 1 else if c \<le>s 0x7ff then 2 else if c \<le>s 0xffff then 3 else 4)"
    by (simp add: utf8_bytes_def)
  have good: "\<exists>h' self' xs. ts_string_push h self c = Inr (h', self')
      \<and> stored_bytes h self = Inr xs
      \<and> stored_bytes h' self' = Inr (xs @ utf8_bytes c)
      \<and> unat (length_ts self') = unat (length_ts self) + encoded_length c" if ok: ?ok
  proof (cases "unat (length_ts self) + encoded_length c \<le> unat (capacity_of self)")
    case True
    then show ?thesis using push_fits [OF assms True] by blast
  next
    case False
    then have cap31: "unat (capacity_of self) < 2 ^ 31" using ok by simp
    show ?thesis
    proof (cases "SMALL_LEN < length_ts self")
      case True
      show ?thesis
        using push_grow_heap [OF assms True _ cap31, of c] False by (simp add: not_le) blast
    next
      case inl: False
      have "unat (capacity_of self) = 12"
        by (rule valid_inline_capacity [OF assms inl])
      then have "12 < unat (length_ts self) + encoded_length c"
        using False by simp
      then show ?thesis
        using push_grow_inline [OF assms inl, of c] by blast
    qed
  qed
  have bad: "\<exists>e. ts_string_push h self c = Inl e" if "\<not> ?ok"
    using that push_wrap_faults [OF assms, of c] by (simp add: not_le not_less)
  have returns: "(\<exists>xs. stored_bytes h self = Inr xs
                \<and> stored_bytes h' self' = Inr (xs @ utf8_bytes c))
            \<and> unat (length_ts self') = unat (length_ts self) + length (utf8_bytes c)"
    if r: "ts_string_push h self c = Inr (h', self')" for h' self'
  proof (cases ?ok)
    case True
    then show ?thesis
      using good r by (auto simp: length_utf8_bytes)
  next
    case False
    then show ?thesis
      using bad r by auto
  qed
  have total: "?ok \<longrightarrow> (\<exists>h' self'. ts_string_push h self c = Inr (h', self'))"
    using good by blast
  show ?thesis
    using returns total len utf8_bytes_four [of c] by blast
qed

theorem ts_string_push_appends_utf8_witness:
  "ts_string_push heap_empty ts_string_new 0x1F600
     = Inr (heap_empty, \<lparr>content = Small [0xF0, 0x9F, 0x98, 0x80, 0, 0, 0, 0, 0, 0, 0, 0],
                         length_ts = 4\<rparr>)
   \<and> utf8_bytes 0x1F600 = [0xF0, 0x9F, 0x98, 0x80]
   \<and> stored_bytes heap_empty ts_string_new = Inr []
   \<and> stored_bytes heap_empty \<lparr>content = Small [0xF0, 0x9F, 0x98, 0x80, 0, 0, 0, 0, 0, 0, 0, 0],
                         length_ts = 4\<rparr> = Inr [0xF0, 0x9F, 0x98, 0x80]"
  using ts_string_push_appends_utf8 [of heap_empty ts_string_new "0x1F600"]
  by (simp add: string_defs ts_string_valid_def capacity_of_def encoded_length_def
        stored_bytes_def utf8_bytes_def)

section \<open>Which codepoints survive the round trip\<close>

text \<open>
  The lemmas of this section decide the round trip of C1 for every codepoint, for
  either signedness of \<^verbatim>\<open>char\<close>. They work bit by bit: the bytes that \<^verbatim>\<open>ts_string_push\<close>
  stores are put together again by \<^verbatim>\<open>ts_string_char\<close>, provided the lead byte selects the
  branch of the right length.
\<close>

lemma bit_0x80: "bit (0x80 :: 'a::len word) n \<longleftrightarrow> n = 7 \<and> n < LENGTH('a)"
proof -
  have "bit (2 ^ 7 :: 'a word) n \<longleftrightarrow> n = 7 \<and> n < LENGTH('a)"
    by (unfold bit_exp_iff possible_bit_word) blast
  then show ?thesis by simp
qed

lemma bit_0xc0: "bit (0xc0 :: 'a::len word) n \<longleftrightarrow> (n = 6 \<or> n = 7) \<and> n < LENGTH('a)"
proof -
  have "bit (2 ^ 7 OR 2 ^ 6 :: 'a word) n \<longleftrightarrow> (n = 6 \<or> n = 7) \<and> n < LENGTH('a)"
    by (unfold bit_or_iff bit_exp_iff possible_bit_word) blast
  then show ?thesis by simp
qed

lemma bit_0xe0: "bit (0xe0 :: 'a::len word) n \<longleftrightarrow> (n = 5 \<or> n = 6 \<or> n = 7) \<and> n < LENGTH('a)"
proof -
  have "bit (2 ^ 7 OR 2 ^ 6 OR 2 ^ 5 :: 'a word) n
          \<longleftrightarrow> (n = 5 \<or> n = 6 \<or> n = 7) \<and> n < LENGTH('a)"
    by (unfold bit_or_iff bit_exp_iff possible_bit_word) blast
  then show ?thesis by simp
qed

lemma bit_0xf0:
  "bit (0xf0 :: 'a::len word) n \<longleftrightarrow> (n = 4 \<or> n = 5 \<or> n = 6 \<or> n = 7) \<and> n < LENGTH('a)"
proof -
  have "bit (2 ^ 7 OR 2 ^ 6 OR 2 ^ 5 OR 2 ^ 4 :: 'a word) n
          \<longleftrightarrow> (n = 4 \<or> n = 5 \<or> n = 6 \<or> n = 7) \<and> n < LENGTH('a)"
    by (unfold bit_or_iff bit_exp_iff possible_bit_word) blast
  then show ?thesis by simp
qed

lemma bit_0x3f: "bit (0x3f :: 'a::len word) n \<longleftrightarrow> n < 6 \<and> n < LENGTH('a)"
proof -
  have "bit (mask 6 :: 'a word) n \<longleftrightarrow> n < 6 \<and> n < LENGTH('a)"
    by (unfold bit_mask_iff possible_bit_word) blast
  then show ?thesis by (simp add: mask_eq_exp_minus_1)
qed

lemma bit_0x1f: "bit (0x1f :: 'a::len word) n \<longleftrightarrow> n < 5 \<and> n < LENGTH('a)"
proof -
  have "bit (mask 5 :: 'a word) n \<longleftrightarrow> n < 5 \<and> n < LENGTH('a)"
    by (unfold bit_mask_iff possible_bit_word) blast
  then show ?thesis by (simp add: mask_eq_exp_minus_1)
qed

lemma bit_0x07: "bit (7 :: 'a::len word) n \<longleftrightarrow> n < 3 \<and> n < LENGTH('a)"
proof -
  have "bit (mask 3 :: 'a word) n \<longleftrightarrow> n < 3 \<and> n < LENGTH('a)"
    by (unfold bit_mask_iff possible_bit_word) blast
  then show ?thesis by (simp add: mask_eq_exp_minus_1)
qed

lemmas bit_consts = bit_0x80 bit_0xc0 bit_0xe0 bit_0xf0 bit_0x3f bit_0x1f bit_0x07

lemma bits_below:
  assumes "(c :: int32) < 2 ^ n" and "bit c k"
  shows "k < n"
proof -
  have "c AND mask n = c" using assms(1) by (rule less_mask_eq)
  then have "bit c k = bit (c AND mask n) k" by simp
  then show ?thesis using assms(2) by (simp add: bit_and_iff bit_mask_iff)
qed

lemma decode2_value:
  assumes "(c :: int32) \<le> 0x7ff"
  shows "push_bit 6 (ucast (ucast (drop_bit 6 c OR 0xc0) :: byte) AND 0x1f)
           OR (ucast (ucast ((c AND 0x3f) OR 0x80) :: byte) AND 0x3f) = c"
proof -
  have "c < 2 ^ 11" using assms by (simp add: word_le_nat_alt word_less_nat_alt)
  note b = bits_below [OF this]
  show ?thesis
    apply (rule bit_word_eqI)
    apply (simp only: bit_simps bit_consts)
    apply (auto dest: b)
    done
qed

lemma decode3_value:
  fixes c :: int32
  assumes "c \<le> 0xffff"
  defines "c0 \<equiv> ucast (ucast (drop_bit 12 c OR 0xe0) :: byte) :: int32"
    and "d0 \<equiv> ucast (ucast ((drop_bit 6 c AND 0x3f) OR 0x80) :: byte) :: int32"
    and "d1 \<equiv> ucast (ucast ((c AND 0x3f) OR 0x80) :: byte) :: int32"
  shows "ucast (ucast (push_bit 12 c0 OR push_bit 6 (d0 AND 0x3f) OR (d1 AND 0x3f)) :: 16 word) = c"
proof (rule bit_word_eqI)
  have "c < 2 ^ 16" using assms(1) by (simp add: word_le_nat_alt word_less_nat_alt)
  note b = bits_below [OF this]
  fix n assume n: "n < LENGTH(32)"
  consider "n < 6" | "6 \<le> n" "n < 12" | "12 \<le> n" "n < 16" | "16 \<le> n"
    by linarith
  then show "bit (ucast (ucast (push_bit 12 c0 OR push_bit 6 (d0 AND 0x3f) OR (d1 AND 0x3f)) :: 16 word) :: int32) n
          = bit c n"
  proof cases
    case 1
    then show ?thesis
      by (simp only: c0_def d0_def d1_def bit_simps bit_consts) auto
  next
    case 2
    then show ?thesis
      by (simp only: c0_def d0_def d1_def bit_simps bit_consts) auto
  next
    case 3
    then show ?thesis
      by (simp only: c0_def d0_def d1_def bit_simps bit_consts) auto
  next
    case 4
    then show ?thesis
      using b [of n] by (simp only: c0_def d0_def d1_def bit_simps bit_consts) auto
  qed
qed

lemma decode4_value:
  fixes c :: int32
  assumes "c \<le> 0x1fffff"
  defines "c0 \<equiv> ucast (ucast (drop_bit 18 c OR 0xf0) :: byte) :: int32"
    and "d0 \<equiv> ucast (ucast ((drop_bit 12 c AND 0x3f) OR 0x80) :: byte) :: int32"
    and "d1 \<equiv> ucast (ucast ((drop_bit 6 c AND 0x3f) OR 0x80) :: byte) :: int32"
    and "d2 \<equiv> ucast (ucast ((c AND 0x3f) OR 0x80) :: byte) :: int32"
  shows "push_bit 18 (c0 AND 7) OR push_bit 12 (d0 AND 0x3f) OR push_bit 6 (d1 AND 0x3f)
           OR (d2 AND 0x3f) = c"
proof (rule bit_word_eqI)
  have "c < 2 ^ 21" using assms(1) by (simp add: word_le_nat_alt word_less_nat_alt)
  note b = bits_below [OF this]
  fix n assume n: "n < LENGTH(32)"
  consider "n < 6" | "6 \<le> n" "n < 12" | "12 \<le> n" "n < 18" | "18 \<le> n" "n < 21" | "21 \<le> n"
    by linarith
  then show "bit (push_bit 18 (c0 AND 7) OR push_bit 12 (d0 AND 0x3f) OR push_bit 6 (d1 AND 0x3f)
           OR (d2 AND 0x3f)) n = bit c n"
  proof cases
    case 1
    then show ?thesis
      by (simp only: c0_def d0_def d1_def d2_def bit_simps bit_consts) auto
  next
    case 2
    then show ?thesis
      by (simp only: c0_def d0_def d1_def d2_def bit_simps bit_consts) auto
  next
    case 3
    then show ?thesis
      by (simp only: c0_def d0_def d1_def d2_def bit_simps bit_consts) auto
  next
    case 4
    then show ?thesis
      by (simp only: c0_def d0_def d1_def d2_def bit_simps bit_consts) auto
  next
    case 5
    then show ?thesis
      using b [of n] by (simp only: c0_def d0_def d1_def d2_def bit_simps bit_consts) auto
  qed
qed

lemma bits_subset_le:
  assumes "\<And>n. bit x n \<Longrightarrow> bit y n"
  shows "x \<le> (y :: 'a::len word)"
proof -
  have "x AND y = x"
    by (rule bit_word_eqI) (auto simp: bit_and_iff dest: assms)
  then show ?thesis
    by (metis word_and_le1)
qed

lemma and_0x80_nonzero:
  assumes "bit (x :: int32) 7"
  shows "x AND 0x80 \<noteq> 0"
proof
  assume "x AND 0x80 = 0"
  then have "\<not> bit (x AND 0x80) 7" by simp
  then show False using assms by (simp add: bit_and_iff bit_0x80)
qed

lemma small_sint:
  assumes "(x :: int32) \<le> 0xff"
  shows "sint x = uint x"
proof -
  have le: "uint x \<le> 255" using assms by (simp add: word_le_def)
  have ge: "0 \<le> uint x" by simp
  have "signed_take_bit 31 (uint x) = uint x"
  proof (rule signed_take_bit_int_eq_self)
    have "- (2 ^ 31) \<le> (0 :: int)" by simp
    then show "- (2 ^ 31) \<le> uint x" using ge by (rule order_trans)
    have "(255 :: int) < 2 ^ 31" by simp
    then show "uint x < 2 ^ 31" using le by (rule_tac le_less_trans)
  qed
  then show ?thesis by (simp add: sint_uint)
qed

lemma bit_0xdf: "bit (0xdf :: 'a::len word) n \<longleftrightarrow> (n < 5 \<or> n = 6 \<or> n = 7) \<and> n < LENGTH('a)"
proof -
  have "bit (mask 5 OR 2 ^ 6 OR 2 ^ 7 :: 'a word) n
          \<longleftrightarrow> (n < 5 \<or> n = 6 \<or> n = 7) \<and> n < LENGTH('a)"
    by (unfold bit_or_iff bit_mask_iff bit_exp_iff possible_bit_word) blast
  then show ?thesis by (simp add: mask_eq_exp_minus_1)
qed

lemma bit_0xef:
  "bit (0xef :: 'a::len word) n \<longleftrightarrow> (n < 4 \<or> n = 5 \<or> n = 6 \<or> n = 7) \<and> n < LENGTH('a)"
proof -
  have "bit (mask 4 OR 2 ^ 5 OR 2 ^ 6 OR 2 ^ 7 :: 'a word) n
          \<longleftrightarrow> (n < 4 \<or> n = 5 \<or> n = 6 \<or> n = 7) \<and> n < LENGTH('a)"
    by (unfold bit_or_iff bit_mask_iff bit_exp_iff possible_bit_word) blast
  then show ?thesis by (simp add: mask_eq_exp_minus_1)
qed

lemma bit_0xff: "bit (0xff :: 'a::len word) n \<longleftrightarrow> n < 8 \<and> n < LENGTH('a)"
proof -
  have "bit (mask 8 :: 'a word) n \<longleftrightarrow> n < 8 \<and> n < LENGTH('a)"
    by (unfold bit_mask_iff possible_bit_word) blast
  then show ?thesis by (simp add: mask_eq_exp_minus_1)
qed

lemma bit_0x7f: "bit (0x7f :: 'a::len word) n \<longleftrightarrow> n < 7 \<and> n < LENGTH('a)"
proof -
  have "bit (mask 7 :: 'a word) n \<longleftrightarrow> n < 7 \<and> n < LENGTH('a)"
    by (unfold bit_mask_iff possible_bit_word) blast
  then show ?thesis by (simp add: mask_eq_exp_minus_1)
qed

lemma sless_small:
  assumes "(x :: int32) \<le> 0xff"
  shows "x <s k \<longleftrightarrow> uint x < sint k"
  by (simp add: word_sless_alt small_sint [OF assms])

lemma nonneg_uint:
  assumes "0 \<le> sint (c :: int32)"
  shows "uint c = sint c"
proof -
  have "sint c < 2 ^ 31" using sint_lt [of c] by simp
  moreover have "(2 :: int) ^ 31 < 2 ^ 32" by simp
  ultimately have "sint c < 2 ^ 32" by (rule less_trans)
  then have "take_bit 32 (sint c) = sint c"
    using assms by (simp add: take_bit_int_eq_self)
  moreover have "uint c = take_bit 32 (sint c)"
    using uint_sint [of c] by simp
  ultimately show ?thesis by simp
qed

lemma lead2:
  fixes c :: int32
  assumes "c \<le> 0x7ff"
  defines "c0 \<equiv> ucast (ucast (drop_bit 6 c OR 0xc0) :: byte) :: int32"
  shows "c0 AND 0x80 \<noteq> 0" and "c0 <s 0xe0"
proof -
  have "c < 2 ^ 11" using assms(1) by (simp add: word_le_nat_alt word_less_nat_alt)
  note b = bits_below [OF this]
  have "bit c0 7"
    by (simp only: c0_def bit_simps bit_consts) simp
  then show "c0 AND 0x80 \<noteq> 0" by (rule and_0x80_nonzero)
  have le: "c0 \<le> 0xdf"
  proof (rule bits_subset_le)
    fix n assume "bit c0 n"
    then show "bit (0xdf :: int32) n"
      using b [of "6 + n"] by (simp only: c0_def bit_simps bit_consts bit_0xdf) auto
  qed
  then have "c0 \<le> 0xff" by (simp add: word_le_nat_alt)
  then show "c0 <s 0xe0"
    using le by (simp add: sless_small word_le_def)
qed


lemma lead3:
  fixes c :: int32
  assumes "c \<le> 0xffff"
  defines "c0 \<equiv> ucast (ucast (drop_bit 12 c OR 0xe0) :: byte) :: int32"
  shows "c0 AND 0x80 \<noteq> 0" and "\<not> c0 <s 0xe0" and "c0 <s 0xf0"
proof -
  have "c < 2 ^ 16" using assms(1) by (simp add: word_le_nat_alt word_less_nat_alt)
  note b = bits_below [OF this]
  have "bit c0 7"
    by (simp only: c0_def bit_simps bit_consts) simp
  then show "c0 AND 0x80 \<noteq> 0" by (rule and_0x80_nonzero)
  have le: "c0 \<le> 0xef"
  proof (rule bits_subset_le)
    fix n assume "bit c0 n"
    then show "bit (0xef :: int32) n"
      using b [of "12 + n"] by (simp only: c0_def bit_simps bit_consts bit_0xef) auto
  qed
  have ge: "0xe0 \<le> c0"
  proof (rule bits_subset_le)
    fix n assume "bit (0xe0 :: int32) n"
    then show "bit c0 n"
      by (simp only: c0_def bit_simps bit_consts) auto
  qed
  have "c0 \<le> 0xff" using le by (simp add: word_le_nat_alt)
  then show "\<not> c0 <s 0xe0" and "c0 <s 0xf0"
    using le ge by (simp_all add: sless_small word_le_def)
qed

lemma lead4:
  fixes c :: int32
  defines "c0 \<equiv> ucast (ucast (drop_bit 18 c OR 0xf0) :: byte) :: int32"
  shows "c0 AND 0x80 \<noteq> 0" and "\<not> c0 <s 0xe0" and "\<not> c0 <s 0xf0"
proof -
  have "bit c0 7"
    by (simp only: c0_def bit_simps bit_consts) simp
  then show "c0 AND 0x80 \<noteq> 0" by (rule and_0x80_nonzero)
  have le: "c0 \<le> 0xff"
  proof (rule bits_subset_le)
    fix n assume "bit c0 n"
    then show "bit (0xff :: int32) n"
      by (simp only: c0_def bit_simps bit_consts bit_0xff) auto
  qed
  have ge: "0xf0 \<le> c0"
  proof (rule bits_subset_le)
    fix n assume "bit (0xf0 :: int32) n"
    then show "bit c0 n"
      by (simp only: c0_def bit_simps bit_consts) auto
  qed
  show "\<not> c0 <s 0xe0" and "\<not> c0 <s 0xf0"
    using le ge by (simp_all add: sless_small word_le_def)
qed

lemma lead1:
  fixes c :: int32
  assumes "c \<le> 0x7f"
  shows "ucast (ucast c :: byte) = c" and "c AND 0x80 = 0"
proof -
  have "c < 2 ^ 7" using assms(1) by (simp add: word_le_nat_alt word_less_nat_alt)
  note b = bits_below [OF this]
  show "ucast (ucast c :: byte) = c"
    by (rule bit_word_eqI) (auto simp: bit_simps dest: b)
  show "c AND 0x80 = 0"
    by (rule bit_word_eqI, simp only: bit_simps bit_0x80) (auto dest: b)
qed

lemma scalar_unsigned:
  assumes "0 \<le>s (c :: int32)"
  shows "c \<le>s k \<longleftrightarrow> uint c \<le> sint k" and "signed_drop_bit n c = drop_bit n c"
proof -
  have nn: "0 \<le> sint c" using assms by (simp add: word_sle_eq)
  then show "c \<le>s k \<longleftrightarrow> uint c \<le> sint k"
    by (simp add: word_sle_eq nonneg_uint)
  have msb: "\<not> bit c 31"
    using nn bit_last_iff [of c] by simp
  show "signed_drop_bit n c = drop_bit n c"
  proof (rule bit_word_eqI)
    fix k assume "k < LENGTH(32)"
    then show "bit (signed_drop_bit n c) k = bit (drop_bit n c) k"
      using msb bit_imp_le_length [of c "n + k"]
      by (auto simp: bit_signed_drop_bit_iff bit_drop_bit_eq)
  qed
qed

lemma push_new_result:
  "ts_string_push h ts_string_new c =
     Inr (h, \<lparr>content = Small (utf8_bytes c @ replicate (12 - length (utf8_bytes c)) 0),
              length_ts = utf8_len c\<rparr>)"
  by (simp add: string_defs utf8_bytes_def or.commute)

lemma char_two:
  fixes c :: int32
  assumes nn: "0 \<le>s c" and lo: "\<not> c \<le>s 0x7f" and hi: "c \<le>s 0x7ff"
  shows "ts_string_char False h
           \<lparr>content = Small (utf8_bytes c @ replicate (12 - length (utf8_bytes c)) 0),
             length_ts = utf8_len c\<rparr> 0 = Inr (c, 2)"
proof -
  have u: "c \<le> 0x7ff"
    using hi by (simp add: scalar_unsigned(1) [OF nn] word_le_def)
  have bytes: "utf8_bytes c = [ucast (drop_bit 6 c OR 0xc0), ucast ((c AND 0x3f) OR 0x80)]"
    using lo hi by (simp add: utf8_bytes_def scalar_unsigned(2) [OF nn] or.commute)
  show ?thesis
    unfolding bytes
    using lead2 [OF u] decode2_value [OF u] lo hi
    by (simp add: ts_string_char_def ts_string_data_def SMALL_LEN_def utf8_len_def load_def
          bindE_def char_to_int_def Let_def word_le_nat_alt word_less_nat_alt)
qed


lemma char_one:
  fixes c :: int32
  assumes nn: "0 \<le>s c" and hi: "c \<le>s 0x7f"
  shows "ts_string_char char_signed h
           \<lparr>content = Small (utf8_bytes c @ replicate (12 - length (utf8_bytes c)) 0),
             length_ts = utf8_len c\<rparr> 0 = Inr (c, 1)"
proof -
  have u: "c \<le> 0x7f"
    using hi by (simp add: scalar_unsigned(1) [OF nn] word_le_def)
  have bytes: "utf8_bytes c = [ucast c]"
    using hi by (simp add: utf8_bytes_def)
  have s: "scast (ucast c :: byte) = c"
  proof (rule bit_word_eqI)
    have "c < 2 ^ 7" using u by (simp add: word_le_nat_alt word_less_nat_alt)
    note b = bits_below [OF this]
    fix n assume "n < LENGTH(32)"
    then show "bit (scast (ucast c :: byte) :: int32) n = bit c n"
      using b [of n] b [of 7] by (auto simp: bit_simps min_def split: if_splits)
  qed
  show ?thesis
    unfolding bytes
    using lead1 [OF u] hi s
    by (simp add: ts_string_char_def ts_string_data_def SMALL_LEN_def utf8_len_def load_def
          bindE_def char_to_int_def Let_def word_le_nat_alt word_less_nat_alt)
qed

lemma char_three:
  fixes c :: int32
  assumes nn: "0 \<le>s c" and lo: "\<not> c \<le>s 0x7ff" and hi: "c \<le>s 0xffff"
  shows "ts_string_char False h
           \<lparr>content = Small (utf8_bytes c @ replicate (12 - length (utf8_bytes c)) 0),
             length_ts = utf8_len c\<rparr> 0 = Inr (c, 3)"
proof -
  have u: "c \<le> 0xffff"
    using hi by (simp add: scalar_unsigned(1) [OF nn] word_le_def)
  have lo': "\<not> c \<le>s 0x7f"
    using lo by (simp add: word_sle_eq)
  have bytes: "utf8_bytes c = [ucast (drop_bit 12 c OR 0xe0),
                 ucast ((drop_bit 6 c AND 0x3f) OR 0x80), ucast ((c AND 0x3f) OR 0x80)]"
    using lo lo' hi by (simp add: utf8_bytes_def scalar_unsigned(2) [OF nn] or.commute)
  show ?thesis
    unfolding bytes
    using lead3 [OF u] decode3_value [OF u] lo lo' hi
    by (simp add: ts_string_char_def ts_string_data_def SMALL_LEN_def utf8_len_def load_def
          bindE_def char_to_int_def Let_def word_le_nat_alt word_less_nat_alt)
qed

lemma char_four:
  fixes c :: int32
  assumes nn: "0 \<le>s c" and lo: "\<not> c \<le>s 0xffff" and hi: "c \<le>s 0x1fffff"
  shows "ts_string_char False h
           \<lparr>content = Small (utf8_bytes c @ replicate (12 - length (utf8_bytes c)) 0),
             length_ts = utf8_len c\<rparr> 0 = Inr (c, 4)"
proof -
  have u: "c \<le> 0x1fffff"
    using hi by (simp add: scalar_unsigned(1) [OF nn] word_le_def)
  have lo': "\<not> c \<le>s 0x7f" "\<not> c \<le>s 0x7ff"
    using lo by (simp_all add: word_sle_eq)
  have bytes: "utf8_bytes c = [ucast (drop_bit 18 c OR 0xf0),
                 ucast ((drop_bit 12 c AND 0x3f) OR 0x80),
                 ucast ((drop_bit 6 c AND 0x3f) OR 0x80), ucast ((c AND 0x3f) OR 0x80)]"
    using lo lo' by (simp add: utf8_bytes_def scalar_unsigned(2) [OF nn] or.commute)
  show ?thesis
    unfolding bytes
    using lead4 [of c] decode4_value [OF u] lo lo'
    by (simp add: ts_string_char_def ts_string_data_def SMALL_LEN_def utf8_len_def load_def
          bindE_def char_to_int_def Let_def word_le_nat_alt word_less_nat_alt)
qed

text \<open>
  With an unsigned \<^verbatim>\<open>char\<close> every value from 0 to \<open>0x1FFFFF\<close>, and so every Unicode
  scalar value, is decoded back from what \<^verbatim>\<open>ts_string_push\<close> stored, and the index
  advances by the encoded length.
\<close>

lemma round_trip_unsigned_char:
  fixes c :: int32
  assumes "0 \<le>s c" and "c \<le>s 0x1fffff"
  shows "\<exists>self. ts_string_push h ts_string_new c = Inr (h, self)
           \<and> ts_string_char False h self 0 = Inr (c, utf8_len c)"
proof -
  have "ts_string_char False h
           \<lparr>content = Small (utf8_bytes c @ replicate (12 - length (utf8_bytes c)) 0),
             length_ts = utf8_len c\<rparr> 0 = Inr (c, utf8_len c)"
  proof (cases "c \<le>s 0x7f")
    case True
    then show ?thesis using char_one [OF assms(1) True] by (simp add: utf8_len_def)
  next
    case n1: False
    show ?thesis
    proof (cases "c \<le>s 0x7ff")
      case True
      then show ?thesis using char_two [OF assms(1) n1 True] n1 by (simp add: utf8_len_def)
    next
      case n2: False
      show ?thesis
      proof (cases "c \<le>s 0xffff")
        case True
        then show ?thesis
          using char_three [OF assms(1) n2 True] n1 n2 by (simp add: utf8_len_def)
      next
        case n3: False
        then show ?thesis
          using char_four [OF assms(1) n3 assms(2)] n1 n2 by (simp add: utf8_len_def)
      qed
    qed
  qed
  then show ?thesis
    by (simp add: push_new_result)
qed

lemma signed_lead:
  assumes "bit (b :: byte) 7"
  shows "(scast b :: int32) AND 0x80 \<noteq> 0" and "(scast b :: int32) <s 0xe0"
proof -
  have "bit (scast b :: int32) 7"
    using assms by (simp add: bit_simps)
  then show "(scast b :: int32) AND 0x80 \<noteq> 0" by (rule and_0x80_nonzero)
  have "sint b < 0"
    using assms bit_last_iff [of b] by simp
  moreover have "sint (scast b :: int32) = sint b"
    by (simp add: sint_up_scast is_up)
  ultimately show "(scast b :: int32) <s 0xe0"
    by (simp add: word_sless_alt)
qed

text \<open>
  With a signed \<^verbatim>\<open>char\<close> every codepoint that \<^verbatim>\<open>ts_string_push\<close> stores in three or four
  bytes is decoded by the two-byte branch: the index advances by 2 and the result has
  at most eleven bits.
\<close>

lemma signed_char_takes_two_byte_branch:
  fixes c :: int32
  assumes "\<not> c \<le>s 0x7ff"
  shows "\<exists>self v. ts_string_push h ts_string_new c = Inr (h, self)
           \<and> ts_string_char True h self 0 = Inr (v, 2) \<and> utf8_len c \<noteq> 2"
proof -
  have n1: "\<not> c \<le>s 0x7f"
    using assms by (simp add: word_sle_eq)
  obtain b0 b1 b2 bs where bytes: "utf8_bytes c = b0 # b1 # b2 # bs" and lead: "bit b0 7"
  proof (cases "c \<le>s 0xffff")
    case True
    have "bit (ucast (0xe0 OR signed_drop_bit 12 c) :: byte) 7"
      by (simp only: bit_simps bit_consts) simp
    then show ?thesis
      using that assms n1 True by (simp add: utf8_bytes_def)
  next
    case False
    have "bit (ucast (0xf0 OR signed_drop_bit 18 c) :: byte) 7"
      by (simp only: bit_simps bit_consts) simp
    then show ?thesis
      using that assms n1 False by (simp add: utf8_bytes_def)
  qed
  have len: "utf8_len c \<noteq> 2"
    using assms n1 by (simp add: utf8_len_def)
  have "\<exists>v. ts_string_char True h
           \<lparr>content = Small (utf8_bytes c @ replicate (12 - length (utf8_bytes c)) 0),
             length_ts = utf8_len c\<rparr> 0 = Inr (v, 2)"
    unfolding bytes
    using signed_lead [OF lead] assms n1
    by (simp add: ts_string_char_def ts_string_data_def SMALL_LEN_def utf8_len_def load_def
          bindE_def char_to_int_def Let_def word_le_nat_alt word_less_nat_alt)
  then show ?thesis
    using len by (simp add: push_new_result)
qed

lemma low_bits_scast:
  "(scast (b :: byte) :: int32) AND 0x3f = ucast b AND 0x3f"
  "(scast (b :: byte) :: int32) AND 0x1f = ucast b AND 0x1f"
  by (rule bit_word_eqI, simp only: bit_simps bit_consts, auto)+

lemma char_two_signed:
  fixes c :: int32
  assumes nn: "0 \<le>s c" and lo: "\<not> c \<le>s 0x7f" and hi: "c \<le>s 0x7ff"
  shows "ts_string_char True h
           \<lparr>content = Small (utf8_bytes c @ replicate (12 - length (utf8_bytes c)) 0),
             length_ts = utf8_len c\<rparr> 0 = Inr (c, 2)"
proof -
  have u: "c \<le> 0x7ff"
    using hi by (simp add: scalar_unsigned(1) [OF nn] word_le_def)
  have bytes: "utf8_bytes c = [ucast (drop_bit 6 c OR 0xc0), ucast ((c AND 0x3f) OR 0x80)]"
    using lo hi by (simp add: utf8_bytes_def scalar_unsigned(2) [OF nn] or.commute)
  have lead: "bit (ucast (drop_bit 6 c OR 0xc0) :: byte) 7"
    by (simp only: bit_simps bit_consts) simp
  show ?thesis
    unfolding bytes
    using signed_lead [OF lead] decode2_value [OF u] lo hi
    by (simp add: ts_string_char_def ts_string_data_def SMALL_LEN_def utf8_len_def load_def
          bindE_def char_to_int_def Let_def word_le_nat_alt word_less_nat_alt low_bits_scast)
qed

text \<open>With a signed \<^verbatim>\<open>char\<close> the round trip holds for the one- and two-byte codepoints.\<close>

lemma round_trip_signed_char_short:
  fixes c :: int32
  assumes "0 \<le>s c" and "c \<le>s 0x7ff"
  shows "\<exists>self. ts_string_push h ts_string_new c = Inr (h, self)
           \<and> ts_string_char True h self 0 = Inr (c, utf8_len c)"
proof (cases "c \<le>s 0x7f")
  case True
  then show ?thesis
    using char_one [OF assms(1) True, of True h] by (simp add: push_new_result utf8_len_def)
next
  case False
  then show ?thesis
    using char_two_signed [OF assms(1) False assms(2), of h] assms(2)
    by (simp add: push_new_result utf8_len_def)
qed

end
